theory Spec2Isabelle
  imports Main
begin

section \<open>Strings and character classes\<close>

text \<open>
  The program is \<^verbatim>\<open>src/anime_rename_bot.py\<close>. Its two pure methods,
  \<^verbatim>\<open>extract_anime_info\<close> (the spec's inferInfo) and \<^verbatim>\<open>generate_new_filename\<close>
  (the spec's buildFilename), are embedded together with the parts of Python's
  \<^verbatim>\<open>os.path\<close>, \<^verbatim>\<open>str\<close> and \<^verbatim>\<open>re\<close> that they call.

  A Python \<^verbatim>\<open>str\<close> is a sequence of code points. It is modelled as a \<^typ>\<open>string\<close>,
  one \<^typ>\<open>char\<close> per code point, which covers the code points U+0000 to U+00FF.
  The character classes below are the ones Python uses for \<^verbatim>\<open>str\<close> patterns
  (Unicode matching), restricted to that range.
\<close>

datatype py_error = IndexError | AttributeError

definition isspace :: "char \<Rightarrow> bool" where
  \<comment> \<open>\<^verbatim>\<open>str.isspace\<close>, the class \<^verbatim>\<open>\s\<close> and what \<^verbatim>\<open>str.strip()\<close> removes\<close>
  "isspace c = (c \<in> set [CHR 0x09, CHR 0x0A, CHR 0x0B, CHR 0x0C, CHR 0x0D,
                          CHR 0x1C, CHR 0x1D, CHR 0x1E, CHR 0x1F, CHR 0x20,
                          CHR 0x85, CHR 0xA0])"

definition isdecimal :: "char \<Rightarrow> bool" where
  \<comment> \<open>the class \<^verbatim>\<open>\d\<close>: the decimal digits\<close>
  "isdecimal c = (c \<in> set ''0123456789'')"

definition isword :: "char \<Rightarrow> bool" where
  \<comment> \<open>the class \<^verbatim>\<open>\w\<close>: \<^verbatim>\<open>str.isalnum\<close> or the underscore\<close>
  "isword c =
     (let n = (of_char c :: nat)
      in (48 \<le> n \<and> n \<le> 57) \<or> (65 \<le> n \<and> n \<le> 90) \<or> n = 95 \<or> (97 \<le> n \<and> n \<le> 122)
         \<or> n = 170 \<or> n = 178 \<or> n = 179 \<or> n = 181 \<or> n = 185 \<or> n = 186
         \<or> (188 \<le> n \<and> n \<le> 190) \<or> (192 \<le> n \<and> n \<le> 214)
         \<or> (216 \<le> n \<and> n \<le> 246) \<or> (248 \<le> n \<and> n \<le> 255))"

definition ascii_lower :: "char \<Rightarrow> char" where
  \<comment> \<open>lower case of the letters A to Z; every other character is left as it is\<close>
  "ascii_lower c =
     (case map_of (zip ''ABCDEFGHIJKLMNOPQRSTUVWXYZ'' ''abcdefghijklmnopqrstuvwxyz'') c of
        None \<Rightarrow> c
      | Some l \<Rightarrow> l)"

definition strip :: "string \<Rightarrow> string" where
  \<comment> \<open>\<^verbatim>\<open>str.strip()\<close>: white space removed at both ends\<close>
  "strip s = rev (dropWhile isspace (rev (dropWhile isspace s)))"

definition zfill :: "nat \<Rightarrow> string \<Rightarrow> string" where
  \<comment> \<open>\<^verbatim>\<open>str.zfill(width)\<close>: zeros are inserted after a leading sign\<close>
  "zfill width s =
     (if width \<le> length s then s
      else (case s of
              [] \<Rightarrow> replicate width CHR ''0''
            | c # cs \<Rightarrow>
                if c = CHR ''+'' \<or> c = CHR ''-''
                then c # replicate (width - length s) CHR ''0'' @ cs
                else replicate (width - length s) CHR ''0'' @ s))"

section \<open>\<^verbatim>\<open>os.path.splitext\<close>\<close>

text \<open>
  The path functions are those of a POSIX system (\<^verbatim>\<open>os.path\<close> is \<^verbatim>\<open>posixpath\<close>).
  \<^verbatim>\<open>posixpath.splitext(p)\<close> is \<^verbatim>\<open>genericpath._splitext(p, '/', None, '.')\<close>:
  \<^verbatim>\<open>
    sepIndex = p.rfind(sep)
    dotIndex = p.rfind(extsep)
    if dotIndex > sepIndex:
        # skip all leading dots
        filenameIndex = sepIndex + 1
        while filenameIndex < dotIndex:
            if p[filenameIndex:filenameIndex+1] != extsep:
                return p[:dotIndex], p[dotIndex:]
            filenameIndex += 1
    return p, p[:0]
  \<close>
\<close>

definition rfind :: "string \<Rightarrow> char \<Rightarrow> int" where
  \<comment> \<open>\<^verbatim>\<open>str.rfind\<close> of one character: the highest index where it occurs, or -1\<close>
  "rfind p c =
     (case filter (\<lambda>i. p ! i = c) (rev [0..<length p]) of
        [] \<Rightarrow> - 1
      | i # _ \<Rightarrow> int i)"

function skip_dots :: "string \<Rightarrow> nat \<Rightarrow> nat \<Rightarrow> string \<times> string" where
  "skip_dots p filenameIndex dotIndex =
     (if filenameIndex < dotIndex
      then (if take 1 (drop filenameIndex p) \<noteq> ''.''
            then (take dotIndex p, drop dotIndex p)
            else skip_dots p (filenameIndex + 1) dotIndex)
      else (p, []))"
  by pat_completeness auto
termination
  by (relation "measure (\<lambda>(p, filenameIndex, dotIndex). dotIndex - filenameIndex)") auto

declare skip_dots.simps [simp del]

definition splitext :: "string \<Rightarrow> string \<times> string" where
  "splitext p =
     (let sepIndex = rfind p CHR ''/'';
          dotIndex = rfind p CHR ''.''
      in if dotIndex > sepIndex
         then skip_dots p (nat (sepIndex + 1)) (nat dotIndex)
         else (p, []))"

section \<open>Regular expressions as Python's \<^verbatim>\<open>re\<close> matches them\<close>

text \<open>
  The patterns of the source use single characters and character classes, greedy and
  lazy repetition of one character or class, sequence, alternation, capture groups,
  \<^verbatim>\<open>$\<close> and \<^verbatim>\<open>\b\<close>. The matcher is the backtracking one: for a pattern and a
  position it lists every way the pattern can match there, in the order in which
  backtracking tries them, so that the head of the list is the match \<^verbatim>\<open>re\<close> reports.
\<close>

datatype atom =
    Lit char          \<comment> \<open>a literal character\<close>
  | AnyChar           \<comment> \<open>\<^verbatim>\<open>.\<close> (without DOTALL)\<close>
  | Space             \<comment> \<open>\<^verbatim>\<open>\s\<close>\<close>
  | Digit             \<comment> \<open>\<^verbatim>\<open>\d\<close>\<close>
  | CharSet string    \<comment> \<open>\<^verbatim>\<open>[...]\<close>\<close>

datatype regex =
    Atom atom
  | Star atom         \<comment> \<open>\<^verbatim>\<open>a*\<close>\<close>
  | Plus atom         \<comment> \<open>\<^verbatim>\<open>a+\<close>\<close>
  | LazyStar atom     \<comment> \<open>\<^verbatim>\<open>a*?\<close>\<close>
  | LazyPlus atom     \<comment> \<open>\<^verbatim>\<open>a+?\<close>\<close>
  | Eol               \<comment> \<open>\<^verbatim>\<open>$\<close> (without MULTILINE)\<close>
  | WordB             \<comment> \<open>\<^verbatim>\<open>\b\<close>\<close>
  | Eps               \<comment> \<open>the empty pattern\<close>
  | Seq regex regex
  | Alt regex regex   \<comment> \<open>\<^verbatim>\<open>r|s\<close>\<close>
  | Group nat regex   \<comment> \<open>\<^verbatim>\<open>(r)\<close>, with its number\<close>

text \<open>
  With IGNORECASE (\<open>ic\<close>) a literal matches a character with the same lower case.
  The literals of the source's patterns are ASCII, and in the range U+0000 to U+00FF
  only the ASCII letters have an ASCII letter as their lower case.
\<close>

fun atom_ok :: "bool \<Rightarrow> atom \<Rightarrow> char \<Rightarrow> bool" where
  "atom_ok ic (Lit c) x = (x = c \<or> (ic \<and> ascii_lower x = ascii_lower c))"
| "atom_ok ic AnyChar x = (x \<noteq> CHR 0x0A)"
| "atom_ok ic Space x = isspace x"
| "atom_ok ic Digit x = isdecimal x"
| "atom_ok ic (CharSet cs) x = (x \<in> set cs \<or> (ic \<and> ascii_lower x \<in> set (map ascii_lower cs)))"

text \<open>
  A position in the subject string is the text before it, reversed, and the text from
  it on. A matcher state is a position with the groups captured so far.
\<close>

type_synonym pos = "string \<times> string"
type_synonym mstate = "pos \<times> (nat \<rightharpoonup> string)"

fun one :: "bool \<Rightarrow> atom \<Rightarrow> pos \<Rightarrow> pos list" where
  "one ic a (bef, []) = []"
| "one ic a (bef, x # xs) = (if atom_ok ic a x then [(x # bef, xs)] else [])"

fun greedy :: "bool \<Rightarrow> atom \<Rightarrow> pos \<Rightarrow> pos list" where
  \<comment> \<open>the positions after \<^verbatim>\<open>a*\<close>, the longest repetition first\<close>
  "greedy ic a (bef, []) = [(bef, [])]"
| "greedy ic a (bef, x # xs) =
     (if atom_ok ic a x then greedy ic a (x # bef, xs) @ [(bef, x # xs)] else [(bef, x # xs)])"

fun lazy :: "bool \<Rightarrow> atom \<Rightarrow> pos \<Rightarrow> pos list" where
  \<comment> \<open>the positions after \<^verbatim>\<open>a*?\<close>, the shortest repetition first\<close>
  "lazy ic a (bef, []) = [(bef, [])]"
| "lazy ic a (bef, x # xs) =
     (bef, x # xs) # (if atom_ok ic a x then lazy ic a (x # bef, xs) else [])"

definition at_end :: "pos \<Rightarrow> bool" where
  \<comment> \<open>\<^verbatim>\<open>$\<close>: at the end of the string, or before a newline that ends it\<close>
  "at_end p = (snd p = [] \<or> snd p = [CHR 0x0A])"

definition at_boundary :: "pos \<Rightarrow> bool" where
  \<comment> \<open>\<^verbatim>\<open>\b\<close>: exactly one of the characters before and after the position is a word character\<close>
  "at_boundary p =
     ((case fst p of [] \<Rightarrow> False | b # _ \<Rightarrow> isword b)
      \<noteq> (case snd p of [] \<Rightarrow> False | x # _ \<Rightarrow> isword x))"

fun rmatch :: "bool \<Rightarrow> regex \<Rightarrow> mstate \<Rightarrow> mstate list" where
  "rmatch ic (Atom a) (p, g) = map (\<lambda>q. (q, g)) (one ic a p)"
| "rmatch ic (Star a) (p, g) = map (\<lambda>q. (q, g)) (greedy ic a p)"
| "rmatch ic (Plus a) (p, g) = map (\<lambda>q. (q, g)) (concat (map (greedy ic a) (one ic a p)))"
| "rmatch ic (LazyStar a) (p, g) = map (\<lambda>q. (q, g)) (lazy ic a p)"
| "rmatch ic (LazyPlus a) (p, g) = map (\<lambda>q. (q, g)) (concat (map (lazy ic a) (one ic a p)))"
| "rmatch ic Eol (p, g) = (if at_end p then [(p, g)] else [])"
| "rmatch ic WordB (p, g) = (if at_boundary p then [(p, g)] else [])"
| "rmatch ic Eps (p, g) = [(p, g)]"
| "rmatch ic (Seq r1 r2) (p, g) = concat (map (rmatch ic r2) (rmatch ic r1 (p, g)))"
| "rmatch ic (Alt r1 r2) (p, g) = rmatch ic r1 (p, g) @ rmatch ic r2 (p, g)"
| "rmatch ic (Group n r) (p, g) =
     map (\<lambda>(q, g'). (q, g'(n \<mapsto> take (length (snd p) - length (snd q)) (snd p))))
       (rmatch ic r (p, g))"

fun num_groups :: "regex \<Rightarrow> nat" where
  "num_groups (Seq r1 r2) = max (num_groups r1) (num_groups r2)"
| "num_groups (Alt r1 r2) = max (num_groups r1) (num_groups r2)"
| "num_groups (Group n r) = max n (num_groups r)"
| "num_groups r = 0"

text \<open>
  A match object: the number of groups of its pattern and the captured groups, group 0
  being the whole match. \<^verbatim>\<open>m.group(n)\<close> raises IndexError for a group the pattern does
  not have and is \<^verbatim>\<open>None\<close> for a group that took no part in the match.
\<close>

datatype match = Match (ngroups: nat) (captures: "nat \<rightharpoonup> string")

definition match_group :: "match \<Rightarrow> nat \<Rightarrow> py_error + string option" where
  "match_group m n = (if n \<le> ngroups m then Inr (captures m n) else Inl IndexError)"

definition match_at :: "bool \<Rightarrow> regex \<Rightarrow> bool \<Rightarrow> pos \<Rightarrow> mstate option" where
  \<comment> \<open>the first match at a position; with \<open>must_advance\<close>, the first one that is not empty\<close>
  "match_at ic r must_advance p =
     find (\<lambda>(q, g). if must_advance then length (snd q) < length (snd p) else True)
       (rmatch ic (Group 0 r) (p, Map.empty))"

fun search_from :: "bool \<Rightarrow> regex \<Rightarrow> string \<Rightarrow> string \<Rightarrow> mstate option" where
  "search_from ic r bef [] = match_at ic r False (bef, [])"
| "search_from ic r bef (x # xs) =
     (case match_at ic r False (bef, x # xs) of
        Some s \<Rightarrow> Some s
      | None \<Rightarrow> search_from ic r (x # bef) xs)"

definition re_search :: "bool \<Rightarrow> regex \<Rightarrow> string \<Rightarrow> match option" where
  \<comment> \<open>\<^verbatim>\<open>re.search(pattern, string, flags)\<close>: the first match at the leftmost position that has one\<close>
  "re_search ic r s = map_option (\<lambda>(q, g). Match (num_groups r) g) (search_from ic r [] s)"

text \<open>
  \<^verbatim>\<open>re.sub(pattern, repl, string)\<close> for a replacement without backslashes: the
  matches are found from left to right, each search starting where the last match ended;
  after an empty match the next one at the same position must not be empty (Python 3.7
  and later). With \<open>must_advance\<close> the match found is never empty, so the branch that
  returns the empty string there is never taken.
\<close>

function sub_from :: "bool \<Rightarrow> regex \<Rightarrow> string \<Rightarrow> bool \<Rightarrow> string \<Rightarrow> string \<Rightarrow> string" where
  "sub_from ic r repl must_advance bef rest =
     (case match_at ic r must_advance (bef, rest) of
        None \<Rightarrow>
          (case rest of
             [] \<Rightarrow> []
           | x # xs \<Rightarrow> x # sub_from ic r repl False (x # bef) xs)
      | Some ((bef', rest'), g) \<Rightarrow>
          repl @ (if length rest' < length rest then sub_from ic r repl False bef' rest'
                  else if must_advance then []
                  else sub_from ic r repl True bef rest))"
  by pat_completeness auto
termination
  by (relation "measure (\<lambda>(ic, r, repl, must_advance, bef, rest).
                   2 * length rest + (if must_advance then 0 else 1))") auto

declare sub_from.simps [simp del]

definition re_sub :: "bool \<Rightarrow> regex \<Rightarrow> string \<Rightarrow> string \<Rightarrow> string" where
  "re_sub ic r repl s = sub_from ic r repl False [] s"

section \<open>The patterns of the source\<close>

text \<open>
  Each pattern is written as the list of its parts, in the order of the pattern string;
  \<open>seq\<close> puts them in sequence and \<open>alt\<close> makes them alternatives, the first one tried
  first.
\<close>

definition seq :: "regex list \<Rightarrow> regex" where
  "seq rs = foldr Seq rs Eps"

definition lit :: "string \<Rightarrow> regex" where
  "lit s = seq (map (\<lambda>c. Atom (Lit c)) s)"

fun alt :: "regex list \<Rightarrow> regex" where
  "alt [] = Eps"
| "alt [r] = r"
| "alt (r # rs) = Alt r (alt rs)"

definition pattern1 :: regex where
  \<comment> \<open>\<^verbatim>\<open>\[.*?\]\s*(.+?)\s*-\s*(\d+)\<close>\<close>
  "pattern1 = seq [Atom (Lit CHR ''[''), LazyStar AnyChar, Atom (Lit CHR '']''), Star Space,
                   Group 1 (LazyPlus AnyChar), Star Space, Atom (Lit CHR ''-''), Star Space,
                   Group 2 (Plus Digit)]"

definition pattern2 :: regex where
  \<comment> \<open>\<^verbatim>\<open>(.+?)\.(?:S\d+E(\d+)|Episode\.(\d+))\<close>\<close>
  "pattern2 = seq [Group 1 (LazyPlus AnyChar), Atom (Lit CHR ''.''),
                   alt [seq [Atom (Lit CHR ''S''), Plus Digit, Atom (Lit CHR ''E''),
                             Group 2 (Plus Digit)],
                        seq [lit ''Episode'', Atom (Lit CHR ''.''), Group 3 (Plus Digit)]]]"

definition pattern3 :: regex where
  \<comment> \<open>\<^verbatim>\<open>(.+?)\s+Episode\s+(\d+)\<close>\<close>
  "pattern3 = seq [Group 1 (LazyPlus AnyChar), Plus Space, lit ''Episode'', Plus Space,
                   Group 2 (Plus Digit)]"

definition pattern4 :: regex where
  \<comment> \<open>\<^verbatim>\<open>(.+?)\s*-\s*(\d+)\<close>\<close>
  "pattern4 = seq [Group 1 (LazyPlus AnyChar), Star Space, Atom (Lit CHR ''-''), Star Space,
                   Group 2 (Plus Digit)]"

definition pattern5 :: regex where
  \<comment> \<open>\<^verbatim>\<open>(.+?)\s+(\d+)(?:\s|$)\<close>\<close>
  "pattern5 = seq [Group 1 (LazyPlus AnyChar), Plus Space, Group 2 (Plus Digit),
                   alt [Atom Space, Eol]]"

definition patterns :: "regex list" where
  "patterns = [pattern1, pattern2, pattern3, pattern4, pattern5]"

definition separators :: regex where
  \<comment> \<open>\<^verbatim>\<open>[\.\-_]+\<close>\<close>
  "separators = Plus (CharSet ''.-_'')"

definition spaces :: regex where
  \<comment> \<open>\<^verbatim>\<open>\s+\<close>\<close>
  "spaces = Plus Space"

definition quality :: regex where
  \<comment> \<open>\<^verbatim>\<open>\b(720p|1080p|480p|BD|BluRay|WEB|HDTV)\b\<close>\<close>
  "quality = seq [WordB,
                  Group 1 (alt [lit ''720p'', lit ''1080p'', lit ''480p'', lit ''BD'',
                                lit ''BluRay'', lit ''WEB'', lit ''HDTV'']),
                  WordB]"

definition reserved :: string where
  \<comment> \<open>the characters \<^verbatim>\<open><>:"/\|?*\<close>\<close>
  "reserved = [CHR ''<'', CHR ''>'', CHR '':'', CHR 0x22, CHR ''/'', CHR 0x5C,
               CHR ''|'', CHR ''?'', CHR ''*'']"

definition invalid :: regex where
  \<comment> \<open>\<^verbatim>\<open>[<>:"/\\|?*]\<close>\<close>
  "invalid = Atom (CharSet reserved)"

section \<open>\<^verbatim>\<open>extract_anime_info\<close> and \<^verbatim>\<open>generate_new_filename\<close>\<close>

definition truthy :: "string option \<Rightarrow> bool" where
  \<comment> \<open>Python's truth value of \<^verbatim>\<open>None\<close> and of a string\<close>
  "truthy v = (case v of None \<Rightarrow> False | Some s \<Rightarrow> s \<noteq> [])"

definition clean_name :: "string \<Rightarrow> string" where
  \<comment> \<open>lines 99 and 100: separators to spaces, white space collapsed and trimmed\<close>
  "clean_name anime_name = strip (re_sub False spaces '' '' (re_sub False separators '' '' anime_name))"

definition remove_quality :: "string \<Rightarrow> string" where
  \<comment> \<open>lines 103 and 104\<close>
  "remove_quality anime_name = strip (re_sub True quality [] anime_name)"

text \<open>
  The loop over the patterns (lines 92 to 109). \<^verbatim>\<open>match.group(1).strip()\<close> raises
  AttributeError when group 1 is \<^verbatim>\<open>None\<close>; \<^verbatim>\<open>match.group(2) or match.group(3)\<close>
  evaluates \<^verbatim>\<open>match.group(3)\<close> only when group 2 is \<^verbatim>\<open>None\<close> or empty.
\<close>

fun try_patterns :: "regex list \<Rightarrow> string \<Rightarrow> py_error + (string \<times> string option)" where
  "try_patterns [] name = Inr (name, None)"
| "try_patterns (pattern # rest) name =
     (case re_search True pattern name of
        None \<Rightarrow> try_patterns rest name
      | Some m \<Rightarrow>
          (case match_group m 1 of
             Inl e \<Rightarrow> Inl e
           | Inr None \<Rightarrow> Inl AttributeError
           | Inr (Some g1) \<Rightarrow>
               (case (case match_group m 2 of
                        Inl e \<Rightarrow> Inl e
                      | Inr g2 \<Rightarrow> if truthy g2 then Inr g2 else match_group m 3) of
                  Inl e \<Rightarrow> Inl e
                | Inr episode \<Rightarrow> Inr (remove_quality (clean_name (strip g1)), episode))))"

definition extract_anime_info :: "string \<Rightarrow> py_error + (string \<times> string option)" where
  "extract_anime_info filename = try_patterns patterns (fst (splitext filename))"

definition remove_invalid :: "string \<Rightarrow> string" where
  \<comment> \<open>line 123\<close>
  "remove_invalid new_filename = re_sub False invalid [] new_filename"

definition generate_new_filename :: "string \<Rightarrow> string option \<Rightarrow> string \<Rightarrow> string" where
  "generate_new_filename anime_name episode original_filename =
     (let extension = snd (splitext original_filename)
      in remove_invalid
           (case episode of
              None \<Rightarrow> anime_name @ extension
            | Some e \<Rightarrow>
                if e \<noteq> [] then anime_name @ '' - Episode '' @ zfill 2 e @ extension
                else anime_name @ extension))"

section \<open>Notions used in the statements\<close>

text \<open>
  The split of the spec: the extension is the substring from the final \<^verbatim>\<open>.\<close> onward, and
  the stem is what is before it.
\<close>

definition final_dot_split :: "string \<Rightarrow> string \<times> string" where
  "final_dot_split f =
     (if CHR ''.'' \<in> set f
      then (rev (tl (dropWhile (\<lambda>c. c \<noteq> CHR ''.'') (rev f))),
            CHR ''.'' # rev (takeWhile (\<lambda>c. c \<noteq> CHR ''.'') (rev f)))
      else (f, []))"

text \<open>
  The last component of a path, and whether \<^verbatim>\<open>os.path.splitext\<close> finds an extension:
  the last component has a \<^verbatim>\<open>.\<close> with a character other than \<^verbatim>\<open>.\<close> somewhere before
  its final one.
\<close>

definition last_component :: "string \<Rightarrow> string" where
  "last_component f = rev (takeWhile (\<lambda>c. c \<noteq> CHR ''/'') (rev f))"

definition has_extension :: "string \<Rightarrow> bool" where
  "has_extension f =
     (CHR ''.'' \<in> set (last_component f)
      \<and> list_ex (\<lambda>c. c \<noteq> CHR ''.'') (fst (final_dot_split (last_component f))))"

text \<open>
  White space: a string is trimmed when it neither begins nor ends with white space;
  it is single-spaced when it is trimmed, has no two adjacent white space characters,
  and all its white space characters are spaces.
\<close>

definition trimmed :: "string \<Rightarrow> bool" where
  "trimmed s = (s = [] \<or> (\<not> isspace (hd s) \<and> \<not> isspace (last s)))"

fun no_double_space :: "string \<Rightarrow> bool" where
  "no_double_space (x # y # zs) = (\<not> (isspace x \<and> isspace y) \<and> no_double_space (y # zs))"
| "no_double_space s = True"

definition single_spaced :: "string \<Rightarrow> bool" where
  "single_spaced s =
     (trimmed s \<and> no_double_space s \<and> list_all (\<lambda>c. isspace c \<longrightarrow> c = CHR '' '') s)"

text \<open>
  What \<^verbatim>\<open>re.sub\<close> does for the pattern \<^verbatim>\<open>a+\<close>: each maximal run of characters of the
  class is replaced by the replacement.
\<close>

function collapse :: "(char \<Rightarrow> bool) \<Rightarrow> string \<Rightarrow> string \<Rightarrow> string" where
  "collapse P repl [] = []"
| "collapse P repl (x # xs) =
     (if P x then repl @ collapse P repl (dropWhile P xs) else x # collapse P repl xs)"
  by pat_completeness auto
termination
  by (relation "measure (\<lambda>(P, repl, s). length s)")
     (auto simp: le_imp_less_Suc length_dropWhile_le)

text \<open>
  The quality tags of line 103, and a string that is one of them when case is ignored.
\<close>

definition quality_tags :: "string list" where
  "quality_tags = [''720p'', ''1080p'', ''480p'', ''BD'', ''BluRay'', ''WEB'', ''HDTV'']"

definition is_tag :: "string \<Rightarrow> bool" where
  "is_tag w = (map ascii_lower w \<in> set (map (map ascii_lower) quality_tags))"

text \<open>
  What \<^verbatim>\<open>re.sub\<close> does for the pattern of the quality tags and the empty replacement:
  a maximal run of word characters is deleted when it is a quality tag, and everything
  else is kept.
\<close>

function delete_tags :: "string \<Rightarrow> string" where
  "delete_tags [] = []"
| "delete_tags (x # xs) =
     (if isword x
      then (if is_tag (takeWhile isword (x # xs)) then [] else takeWhile isword (x # xs))
           @ delete_tags (dropWhile isword (x # xs))
      else x # delete_tags xs)"
  by pat_completeness auto
termination
  by (relation "measure length") (auto simp: le_imp_less_Suc length_dropWhile_le)

declare delete_tags.simps(2) [simp del]

text \<open>
  The words of a string: its maximal runs of characters that are not white space
  (\<^verbatim>\<open>str.split()\<close>).
\<close>

function split_words :: "string \<Rightarrow> string list" where
  "split_words [] = []"
| "split_words (x # xs) =
     (if isspace x then split_words xs
      else takeWhile (\<lambda>c. \<not> isspace c) (x # xs)
           # split_words (dropWhile (\<lambda>c. \<not> isspace c) (x # xs)))"
  by pat_completeness auto
termination
  by (relation "measure length") (auto simp: le_imp_less_Suc length_dropWhile_le)

declare split_words.simps(2) [simp del]

text \<open>
  A static check of a pattern: \<open>cap a n r\<close> holds when every match of \<open>r\<close> sets group
  \<open>n\<close>, and to one or more characters of the class \<open>a\<close>. \<open>grps r\<close> are the group numbers
  in \<open>r\<close>.
\<close>

fun grps :: "regex \<Rightarrow> nat set" where
  "grps (Seq r1 r2) = grps r1 \<union> grps r2"
| "grps (Alt r1 r2) = grps r1 \<union> grps r2"
| "grps (Group n r) = insert n (grps r)"
| "grps r = {}"

fun cap :: "atom \<Rightarrow> nat \<Rightarrow> regex \<Rightarrow> bool" where
  "cap a n (Group k r) = (if k = n then r = Plus a \<or> r = LazyPlus a else cap a n r)"
| "cap a n (Seq r1 r2) = (cap a n r2 \<or> (cap a n r1 \<and> n \<notin> grps r2))"
| "cap a n (Alt r1 r2) = (cap a n r1 \<and> cap a n r2)"
| "cap a n r = False"

definition well_grouped :: "regex \<Rightarrow> bool" where
  "well_grouped r =
     (cap AnyChar 1 r \<and> 1 \<le> num_groups r
      \<and> ((cap Digit 2 r \<and> 2 \<le> num_groups r) \<or> 3 \<le> num_groups r))"

section \<open>Splitting off the extension\<close>

lemma rfind_last:
  assumes "c \<notin> set ys"
  shows "rfind (xs @ c # ys) c = int (length xs)"
proof -
  let ?p = "xs @ c # ys"
  let ?n = "length xs + Suc (length ys)"
  have a: "[0..<?n] = [0..<length xs] @ [length xs..<?n]"
    by (rule upt_add_eq_append) simp
  have b: "[length xs..<?n] = length xs # [Suc (length xs)..<?n]"
    by (rule upt_conv_Cons) simp
  have late: "?p ! i \<noteq> c" if "i \<in> set [Suc (length xs)..<?n]" for i
  proof -
    from that have i: "Suc (length xs) \<le> i" "i < ?n" by auto
    then have "?p ! i = ys ! (i - Suc (length xs))"
      by (simp add: nth_append nth_Cons')
    moreover from i have "i - Suc (length xs) < length ys" by simp
    then have "ys ! (i - Suc (length xs)) \<in> set ys" by (rule nth_mem)
    ultimately show ?thesis using assms by metis
  qed
  have c: "filter (\<lambda>i. ?p ! i = c) (rev [Suc (length xs)..<?n]) = []"
    unfolding filter_empty_conv set_rev using late by blast
  have "rev [0..<?n] = rev [Suc (length xs)..<?n] @ length xs # rev [0..<length xs]"
    unfolding a b by simp
  then have "filter (\<lambda>i. ?p ! i = c) (rev [0..<?n])
             = length xs # filter (\<lambda>i. ?p ! i = c) (rev [0..<length xs])"
    using c by simp
  moreover have "length ?p = ?n" by simp
  ultimately show ?thesis unfolding rfind_def by simp
qed

lemma rfind_absent:
  assumes "c \<notin> set p"
  shows "rfind p c = - 1"
proof -
  have "filter (\<lambda>i. p ! i = c) (rev [0..<length p]) = []"
    using assms by (auto simp: filter_empty_conv)
  then show ?thesis by (simp add: rfind_def)
qed

lemma rfind_cases:
  "(c \<notin> set p \<and> rfind p c = - 1)
   \<or> (\<exists>xs ys. p = xs @ c # ys \<and> c \<notin> set ys \<and> rfind p c = int (length xs))"
proof (cases "c \<in> set p")
  case True
  from split_list_last [OF True] obtain xs ys where "p = xs @ c # ys" "c \<notin> set ys"
    by blast
  with rfind_last [of c ys xs] show ?thesis by blast
next
  case False
  with rfind_absent show ?thesis by blast
qed

lemma takeWhile_until: "c \<notin> set xs \<Longrightarrow> takeWhile (\<lambda>x. x \<noteq> c) (xs @ c # ys) = xs"
  by (induction xs) auto

lemma dropWhile_until: "c \<notin> set xs \<Longrightarrow> dropWhile (\<lambda>x. x \<noteq> c) (xs @ c # ys) = c # ys"
  by (induction xs) auto

lemma takeWhile_all: "c \<notin> set xs \<Longrightarrow> takeWhile (\<lambda>x. x \<noteq> c) xs = xs"
  by (induction xs) auto

lemma skip_dots_run:
  "skip_dots (pre @ mid @ suf) (length pre) (length pre + length mid)
   = (if list_ex (\<lambda>c. c \<noteq> CHR ''.'') mid then (pre @ mid, suf) else (pre @ mid @ suf, []))"
proof (induction mid arbitrary: pre)
  case Nil
  show ?case by (subst skip_dots.simps) simp
next
  case (Cons x m)
  show ?case
  proof (cases "x = CHR ''.''")
    case True
    have "skip_dots (pre @ (x # m) @ suf) (length pre) (length pre + length (x # m))
          = skip_dots ((pre @ [x]) @ m @ suf) (length (pre @ [x])) (length (pre @ [x]) + length m)"
      by (subst skip_dots.simps) (simp add: True)
    also have "\<dots> = (if list_ex (\<lambda>c. c \<noteq> CHR ''.'') m then ((pre @ [x]) @ m, suf)
                     else ((pre @ [x]) @ m @ suf, []))"
      by (rule Cons.IH)
    finally show ?thesis by (simp add: True)
  next
    case False
    show ?thesis by (subst skip_dots.simps) (simp add: False)
  qed
qed

lemma final_dot_split_last:
  assumes "CHR ''.'' \<notin> set e"
  shows "final_dot_split (a @ CHR ''.'' # e) = (a, CHR ''.'' # e)"
proof -
  have tw: "takeWhile (\<lambda>c. c \<noteq> CHR ''.'') (rev e @ CHR ''.'' # rev a) = rev e"
    using assms by (simp add: takeWhile_until)
  have dw: "dropWhile (\<lambda>c. c \<noteq> CHR ''.'') (rev e @ CHR ''.'' # rev a) = CHR ''.'' # rev a"
    using assms by (simp add: dropWhile_until)
  show ?thesis by (simp add: final_dot_split_def tw dw)
qed

lemma last_component_split:
  "\<exists>dir. f = dir @ last_component f \<and> CHR ''/'' \<notin> set (last_component f)
          \<and> rfind f CHR ''/'' + 1 = int (length dir)
          \<and> (CHR ''.'' \<notin> set (last_component f) \<longrightarrow> rfind f CHR ''.'' \<le> rfind f CHR ''/'')"
proof -
  from rfind_cases [of "CHR ''/''" f]
  show ?thesis
  proof
    assume a: "CHR ''/'' \<notin> set f \<and> rfind f CHR ''/'' = - 1"
    then have lc: "last_component f = f"
      by (simp add: last_component_def takeWhile_all)
    have "CHR ''.'' \<notin> set f \<Longrightarrow> rfind f CHR ''.'' = - 1" by (rule rfind_absent)
    with a lc show ?thesis by auto
  next
    assume "\<exists>xs ys. f = xs @ CHR ''/'' # ys \<and> CHR ''/'' \<notin> set ys \<and> rfind f CHR ''/'' = int (length xs)"
    then obtain xs ys where f: "f = xs @ CHR ''/'' # ys" and ys: "CHR ''/'' \<notin> set ys"
      and r: "rfind f CHR ''/'' = int (length xs)"
      by blast
    from f ys have lc: "last_component f = ys"
      by (simp add: last_component_def takeWhile_until)
    have dot: "rfind f CHR ''.'' \<le> rfind f CHR ''/''" if nd: "CHR ''.'' \<notin> set ys"
    proof -
      from rfind_cases [of "CHR ''.''" f]
      show ?thesis
      proof
        assume "CHR ''.'' \<notin> set f \<and> rfind f CHR ''.'' = - 1"
        with r show ?thesis by simp
      next
        assume "\<exists>as bs. f = as @ CHR ''.'' # bs \<and> CHR ''.'' \<notin> set bs \<and> rfind f CHR ''.'' = int (length as)"
        then obtain as bs where f2: "f = as @ CHR ''.'' # bs" and bs: "CHR ''.'' \<notin> set bs"
          and r2: "rfind f CHR ''.'' = int (length as)"
          by blast
        have "length as < length xs"
        proof (rule ccontr)
          assume "\<not> length as < length xs"
          then have le: "length xs \<le> length as" by simp
          have "(as @ CHR ''.'' # bs) ! length as = CHR ''.''" by simp
          with f2 have "f ! length as = CHR ''.''" by simp
          moreover from f le have "f ! length as = (CHR ''/'' # ys) ! (length as - length xs)"
            by (simp add: nth_append)
          moreover have "length as < length f" using f2 by simp
          then have "length as - length xs < length (CHR ''/'' # ys)" using f le by simp
          then have "(CHR ''/'' # ys) ! (length as - length xs) \<in> set (CHR ''/'' # ys)"
            by (rule nth_mem)
          ultimately have "CHR ''.'' \<in> set (CHR ''/'' # ys)" by simp
          with nd show False by simp
        qed
        with r r2 show ?thesis by simp
      qed
    qed
    from f lc ys r dot show ?thesis
      by (intro exI [of _ "xs @ [CHR ''/'']"]) simp
  qed
qed

lemma splitext_cases:
  "(\<not> has_extension f \<and> splitext f = (f, []))
   \<or> (\<exists>dir root e. f = dir @ root @ CHR ''.'' # e \<and> list_ex (\<lambda>c. c \<noteq> CHR ''.'') root
         \<and> has_extension f \<and> splitext f = (dir @ root, CHR ''.'' # e)
         \<and> final_dot_split f = (dir @ root, CHR ''.'' # e))"
proof -
  from last_component_split [of f] obtain dir where
    f: "f = dir @ last_component f" and ns: "CHR ''/'' \<notin> set (last_component f)"
    and sep: "rfind f CHR ''/'' + 1 = int (length dir)"
    and nodot: "CHR ''.'' \<notin> set (last_component f) \<longrightarrow> rfind f CHR ''.'' \<le> rfind f CHR ''/''"
    by blast
  show ?thesis
  proof (cases "CHR ''.'' \<in> set (last_component f)")
    case False
    with nodot have "splitext f = (f, [])" by (simp add: splitext_def Let_def)
    with False show ?thesis by (simp add: has_extension_def)
  next
    case True
    from split_list_last [OF True] obtain root e where
      lc: "last_component f = root @ CHR ''.'' # e" and e: "CHR ''.'' \<notin> set e"
      by blast
    from f lc have f2: "f = (dir @ root) @ CHR ''.'' # e" by simp
    have dotidx: "rfind f CHR ''.'' = int (length dir + length root)"
      using rfind_last [OF e, of "dir @ root"] f2 by simp
    have fds: "final_dot_split (last_component f) = (root, CHR ''.'' # e)"
      using final_dot_split_last [OF e, of root] lc by simp
    have fdf: "final_dot_split f = (dir @ root, CHR ''.'' # e)"
      using final_dot_split_last [OF e, of "dir @ root"] f2 by simp
    have he: "has_extension f = list_ex (\<lambda>c. c \<noteq> CHR ''.'') root"
      using True fds by (simp add: has_extension_def)
    have "splitext f = skip_dots f (length dir) (length dir + length root)"
      using sep dotidx by (simp add: splitext_def Let_def nat_int_add)
    also have "\<dots> = skip_dots (dir @ root @ CHR ''.'' # e) (length dir) (length dir + length root)"
      using f2 by simp
    also have "\<dots> = (if list_ex (\<lambda>c. c \<noteq> CHR ''.'') root then (dir @ root, CHR ''.'' # e)
                     else (dir @ root @ CHR ''.'' # e, []))"
      by (rule skip_dots_run)
    finally have sp: "splitext f = (if list_ex (\<lambda>c. c \<noteq> CHR ''.'') root then (dir @ root, CHR ''.'' # e)
                     else (f, []))"
      using f2 by simp
    show ?thesis
    proof (cases "list_ex (\<lambda>c. c \<noteq> CHR ''.'') root")
      case True
      with sp he fdf f2 show ?thesis by auto
    next
      case False
      with sp he show ?thesis by simp
    qed
  qed
qed

lemma splitext_exact:
  "splitext f = (if has_extension f then final_dot_split f else (f, []))"
  using splitext_cases [of f] by auto

lemma splitext_append: "fst (splitext f) @ snd (splitext f) = f"
  using splitext_cases [of f] by auto

lemma splitext_stem_nonempty: "f \<noteq> [] \<Longrightarrow> fst (splitext f) \<noteq> []"
  using splitext_cases [of f] by (auto simp: list_ex_iff)

lemma has_extension_plain:
  assumes "CHR ''/'' \<notin> set f" and "f = [] \<or> hd f \<noteq> CHR ''.''"
  shows "has_extension f = (CHR ''.'' \<in> set f)"
proof -
  from assms(1) have lc: "last_component f = f"
    by (simp add: last_component_def takeWhile_all)
  show ?thesis
  proof (cases "CHR ''.'' \<in> set f")
    case False
    with lc show ?thesis by (simp add: has_extension_def)
  next
    case True
    from split_list_last [OF True] obtain root e where
      f: "f = root @ CHR ''.'' # e" and e: "CHR ''.'' \<notin> set e"
      by blast
    from f assms(2) have "root \<noteq> []" "hd root \<noteq> CHR ''.''" by (cases root; simp)+
    then have "list_ex (\<lambda>c. c \<noteq> CHR ''.'') root" by (cases root) simp_all
    with True lc final_dot_split_last [OF e, of root] f show ?thesis
      by (simp add: has_extension_def)
  qed
qed

section \<open>Positions and groups of a match\<close>

lemma one_pos:
  "q \<in> set (one ic a p) \<Longrightarrow> \<exists>x. snd p = x # snd q \<and> fst q = x # fst p \<and> atom_ok ic a x"
  by (cases "(ic, a, p)" rule: one.cases) (auto split: if_splits)

lemma greedy_pos:
  "q \<in> set (greedy ic a p) \<Longrightarrow>
     \<exists>w. snd p = w @ snd q \<and> fst q = rev w @ fst p \<and> list_all (atom_ok ic a) w"
proof (induction ic a p rule: greedy.induct)
  case (1 ic a bef)
  then show ?case by simp
next
  case (2 ic a bef x xs)
  show ?case
  proof (cases "q = (bef, x # xs)")
    case True
    then show ?thesis by simp
  next
    case False
    with "2.prems" have ok: "atom_ok ic a x" and mem: "q \<in> set (greedy ic a (x # bef, xs))"
      by (auto split: if_splits)
    from "2.IH" [OF ok mem] obtain w where
      "xs = w @ snd q" "fst q = rev w @ x # bef" "list_all (atom_ok ic a) w"
      by auto
    with ok have "snd (bef, x # xs) = (x # w) @ snd q \<and> fst q = rev (x # w) @ fst (bef, x # xs)
                  \<and> list_all (atom_ok ic a) (x # w)"
      by simp
    then show ?thesis by blast
  qed
qed

lemma lazy_pos:
  "q \<in> set (lazy ic a p) \<Longrightarrow>
     \<exists>w. snd p = w @ snd q \<and> fst q = rev w @ fst p \<and> list_all (atom_ok ic a) w"
proof (induction ic a p rule: lazy.induct)
  case (1 ic a bef)
  then show ?case by simp
next
  case (2 ic a bef x xs)
  show ?case
  proof (cases "q = (bef, x # xs)")
    case True
    then show ?thesis by simp
  next
    case False
    with "2.prems" have ok: "atom_ok ic a x" and mem: "q \<in> set (lazy ic a (x # bef, xs))"
      by (auto split: if_splits)
    from "2.IH" [OF ok mem] obtain w where
      "xs = w @ snd q" "fst q = rev w @ x # bef" "list_all (atom_ok ic a) w"
      by auto
    with ok have "snd (bef, x # xs) = (x # w) @ snd q \<and> fst q = rev (x # w) @ fst (bef, x # xs)
                  \<and> list_all (atom_ok ic a) (x # w)"
      by simp
    then show ?thesis by blast
  qed
qed

lemma plus_pos:
  assumes "q \<in> set (concat (map (greedy ic a) (one ic a p)))
           \<or> q \<in> set (concat (map (lazy ic a) (one ic a p)))"
  shows "\<exists>w. w \<noteq> [] \<and> snd p = w @ snd q \<and> fst q = rev w @ fst p \<and> list_all (atom_ok ic a) w"
proof -
  from assms obtain p1 where p1: "p1 \<in> set (one ic a p)"
    and q: "q \<in> set (greedy ic a p1) \<or> q \<in> set (lazy ic a p1)"
    by auto
  from one_pos [OF p1] obtain x where x: "snd p = x # snd p1" "fst p1 = x # fst p" "atom_ok ic a x"
    by blast
  from q greedy_pos lazy_pos obtain w where
    w: "snd p1 = w @ snd q" "fst q = rev w @ fst p1" "list_all (atom_ok ic a) w"
    by blast
  from x w have "x # w \<noteq> [] \<and> snd p = (x # w) @ snd q \<and> fst q = rev (x # w) @ fst p
                 \<and> list_all (atom_ok ic a) (x # w)"
    by simp
  then show ?thesis by blast
qed

lemma rmatch_pos:
  "(q, g') \<in> set (rmatch ic r (p, g)) \<Longrightarrow> \<exists>w. snd p = w @ snd q \<and> fst q = rev w @ fst p"
proof (induction r arbitrary: p g q g')
  case (Atom a)
  then show ?case using one_pos [of q ic a p] by auto
next
  case (Star a)
  then show ?case using greedy_pos [of q ic a p] by auto
next
  case (Plus a)
  then show ?case using plus_pos [of q ic a p] by auto
next
  case (LazyStar a)
  then show ?case using lazy_pos [of q ic a p] by auto
next
  case (LazyPlus a)
  then show ?case using plus_pos [of q ic a p] by auto
next
  case Eol
  then show ?case by (auto split: if_splits)
next
  case WordB
  then show ?case by (auto split: if_splits)
next
  case Eps
  then show ?case by simp
next
  case (Seq r1 r2)
  from Seq.prems obtain p1 g1 where
    a: "(p1, g1) \<in> set (rmatch ic r1 (p, g))" and b: "(q, g') \<in> set (rmatch ic r2 (p1, g1))"
    by auto
  from Seq.IH(1) [OF a] obtain w1 where w1: "snd p = w1 @ snd p1" "fst p1 = rev w1 @ fst p"
    by blast
  from Seq.IH(2) [OF b] obtain w2 where w2: "snd p1 = w2 @ snd q" "fst q = rev w2 @ fst p1"
    by blast
  from w1 w2 have "snd p = (w1 @ w2) @ snd q \<and> fst q = rev (w1 @ w2) @ fst p"
    by simp
  then show ?case by blast
next
  case (Alt r1 r2)
  then show ?case by auto
next
  case (Group n r)
  then show ?case by auto
qed

lemma rmatch_keeps:
  "(q, g') \<in> set (rmatch ic r (p, g)) \<Longrightarrow> n \<notin> grps r \<Longrightarrow> g' n = g n"
proof (induction r arbitrary: p g q g')
  case (Seq r1 r2)
  from Seq.prems(1) obtain p1 g1 where
    a: "(p1, g1) \<in> set (rmatch ic r1 (p, g))" and b: "(q, g') \<in> set (rmatch ic r2 (p1, g1))"
    by auto
  from Seq.prems(2) have "n \<notin> grps r1" "n \<notin> grps r2" by simp_all
  with Seq.IH(1) [OF a] Seq.IH(2) [OF b] show ?case by simp
next
  case (Alt r1 r2)
  from Alt.prems have "(q, g') \<in> set (rmatch ic r1 (p, g)) \<or> (q, g') \<in> set (rmatch ic r2 (p, g))"
    and "n \<notin> grps r1" and "n \<notin> grps r2"
    by simp_all
  with Alt.IH show ?case by blast
next
  case (Group k r)
  from Group.prems(1) obtain g1 where
    a: "(q, g1) \<in> set (rmatch ic r (p, g))" and b: "g' = g1(k \<mapsto> take (length (snd p) - length (snd q)) (snd p))"
    by auto
  from Group.prems(2) have "n \<noteq> k" "n \<notin> grps r" by simp_all
  with Group.IH [OF a] b show ?case by simp
qed (auto split: if_splits)

lemma group_plus_captured:
  assumes "(q, g') \<in> set (rmatch ic (Group n r) (p, g))" and "r = Plus a \<or> r = LazyPlus a"
  shows "\<exists>v. g' n = Some v \<and> v \<noteq> [] \<and> list_all (atom_ok ic a) v"
proof -
  from assms(1) obtain g1 where
    a: "(q, g1) \<in> set (rmatch ic r (p, g))"
    and b: "g' = g1(n \<mapsto> take (length (snd p) - length (snd q)) (snd p))"
    by auto
  from a assms(2) have "q \<in> set (concat (map (greedy ic a) (one ic a p)))
           \<or> q \<in> set (concat (map (lazy ic a) (one ic a p)))"
    by auto
  from plus_pos [OF this] obtain w where
    w: "w \<noteq> []" "snd p = w @ snd q" "list_all (atom_ok ic a) w"
    by blast
  then have "take (length (snd p) - length (snd q)) (snd p) = w" by simp
  with b w show ?thesis by simp
qed

lemma cap_sound:
  "cap a n r \<Longrightarrow> (q, g') \<in> set (rmatch ic r (p, g)) \<Longrightarrow>
     \<exists>v. g' n = Some v \<and> v \<noteq> [] \<and> list_all (atom_ok ic a) v"
proof (induction r arbitrary: p g q g')
  case (Seq r1 r2)
  from Seq.prems(2) obtain p1 g1 where
    a: "(p1, g1) \<in> set (rmatch ic r1 (p, g))" and b: "(q, g') \<in> set (rmatch ic r2 (p1, g1))"
    by auto
  show ?case
  proof (cases "cap a n r2")
    case True
    from Seq.IH(2) [OF True b] show ?thesis .
  next
    case False
    with Seq.prems(1) have c: "cap a n r1" and d: "n \<notin> grps r2" by simp_all
    from rmatch_keeps [OF b d] Seq.IH(1) [OF c a] show ?thesis by simp
  qed
next
  case (Alt r1 r2)
  from Alt.prems have "(q, g') \<in> set (rmatch ic r1 (p, g)) \<or> (q, g') \<in> set (rmatch ic r2 (p, g))"
    and "cap a n r1" and "cap a n r2"
    by simp_all
  with Alt.IH show ?case by blast
next
  case (Group k r)
  show ?case
  proof (cases "k = n")
    case True
    with Group.prems show ?thesis using group_plus_captured [of q g' ic n r p g a] by simp
  next
    case False
    from Group.prems(2) obtain g1 where
      a: "(q, g1) \<in> set (rmatch ic r (p, g))"
      and b: "g' = g1(k \<mapsto> take (length (snd p) - length (snd q)) (snd p))"
      by auto
    from False Group.prems(1) have "cap a n r" by simp
    from Group.IH [OF this a] b False show ?thesis by simp
  qed
qed simp_all

lemma match_at_mem:
  "match_at ic r False p = Some (q, g) \<Longrightarrow> (q, g) \<in> set (rmatch ic (Group 0 r) (p, Map.empty))"
  by (auto simp: match_at_def find_Some_iff)

lemma search_from_mem:
  "search_from ic r bef rest = Some (q, g) \<Longrightarrow>
     \<exists>p. (q, g) \<in> set (rmatch ic (Group 0 r) (p, Map.empty))"
proof (induction rest arbitrary: bef)
  case Nil
  then show ?case using match_at_mem by fastforce
next
  case (Cons x xs)
  show ?case
  proof (cases "match_at ic r False (bef, x # xs)")
    case None
    with Cons.prems have "search_from ic r (x # bef) xs = Some (q, g)" by simp
    from Cons.IH [OF this] show ?thesis .
  next
    case (Some s)
    with Cons.prems have "match_at ic r False (bef, x # xs) = Some (q, g)" by simp
    from match_at_mem [OF this] show ?thesis by blast
  qed
qed

lemma re_search_captured:
  assumes "re_search ic r s = Some m" and "cap a n r" and "0 < n"
  shows "\<exists>v. captures m n = Some v \<and> v \<noteq> [] \<and> list_all (atom_ok ic a) v"
proof -
  from assms(1) obtain q g where sf: "search_from ic r [] s = Some (q, g)"
    and m: "m = Match (num_groups r) g"
    by (auto simp: re_search_def)
  from search_from_mem [OF sf] obtain p where
    "(q, g) \<in> set (rmatch ic (Group 0 r) (p, Map.empty))"
    by blast
  moreover from assms(2,3) have "cap a n (Group 0 r)" by simp
  ultimately have "\<exists>v. g n = Some v \<and> v \<noteq> [] \<and> list_all (atom_ok ic a) v"
    by (rule cap_sound [rotated])
  with m show ?thesis by simp
qed

lemma re_search_ngroups: "re_search ic r s = Some m \<Longrightarrow> ngroups m = num_groups r"
  by (auto simp: re_search_def)

lemma patterns_well_grouped: "list_all well_grouped patterns"
  by (simp add: patterns_def well_grouped_def pattern1_def pattern2_def pattern3_def
        pattern4_def pattern5_def seq_def lit_def)

lemma matched_result:
  assumes wg: "well_grouped r" and m: "re_search True r name = Some m"
  shows "\<exists>raw e. raw \<noteq> [] \<and> match_group m 1 = Inr (Some raw)
           \<and> (case match_group m 2 of
                 Inl err \<Rightarrow> Inl err
               | Inr g2 \<Rightarrow> if truthy g2 then Inr g2 else match_group m 3) = Inr e"
proof -
  from wg have c1: "cap AnyChar 1 r" and n1: "1 \<le> num_groups r"
    by (simp_all add: well_grouped_def)
  from re_search_captured [OF m c1] obtain raw where raw: "captures m 1 = Some raw" "raw \<noteq> []"
    by auto
  from re_search_ngroups [OF m] have ng: "ngroups m = num_groups r" .
  from raw n1 ng have g1: "match_group m 1 = Inr (Some raw)"
    by (simp add: match_group_def)
  have "\<exists>e. (case match_group m 2 of
                 Inl err \<Rightarrow> Inl err
               | Inr g2 \<Rightarrow> if truthy g2 then Inr g2 else match_group m 3) = Inr e"
  proof (cases "cap Digit 2 r \<and> 2 \<le> num_groups r")
    case True
    then have c2: "cap Digit 2 r" and n2: "2 \<le> num_groups r" by simp_all
    from re_search_captured [OF m c2] obtain d where "captures m 2 = Some d" "d \<noteq> []"
      by auto
    with n2 ng show ?thesis by (simp add: match_group_def truthy_def)
  next
    case False
    with wg have "3 \<le> num_groups r" by (auto simp: well_grouped_def)
    with ng show ?thesis by (simp add: match_group_def)
  qed
  with g1 raw show ?thesis by blast
qed

lemma try_patterns_result:
  assumes "list_all well_grouped rs"
  shows "(list_all (\<lambda>r. re_search True r name = None) rs \<and> try_patterns rs name = Inr (name, None))
         \<or> (list_ex (\<lambda>r. re_search True r name \<noteq> None) rs
            \<and> (\<exists>raw e. raw \<noteq> []
                  \<and> try_patterns rs name = Inr (remove_quality (clean_name (strip raw)), e)))"
  using assms
proof (induction rs)
  case Nil
  show ?case by simp
next
  case (Cons r rs)
  then have wg: "well_grouped r" and rest: "list_all well_grouped rs" by simp_all
  show ?case
  proof (cases "re_search True r name")
    case None
    with Cons.IH [OF rest] show ?thesis by auto
  next
    case (Some m)
    from matched_result [OF wg Some] obtain raw e where
      "raw \<noteq> []" "match_group m 1 = Inr (Some raw)"
      "(case match_group m 2 of Inl err \<Rightarrow> Inl err
        | Inr g2 \<Rightarrow> if truthy g2 then Inr g2 else match_group m 3) = Inr e"
      by blast
    with Some have "raw \<noteq> [] \<and> try_patterns (r # rs) name
                      = Inr (remove_quality (clean_name (strip raw)), e)"
      by simp
    with Some show ?thesis by auto
  qed
qed

lemma extract_anime_info_result:
  "(list_all (\<lambda>r. re_search True r (fst (splitext filename)) = None) patterns
      \<and> extract_anime_info filename = Inr (fst (splitext filename), None))
   \<or> (list_ex (\<lambda>r. re_search True r (fst (splitext filename)) \<noteq> None) patterns
      \<and> (\<exists>raw e. raw \<noteq> []
            \<and> extract_anime_info filename = Inr (remove_quality (clean_name (strip raw)), e)))"
  unfolding extract_anime_info_def
  by (rule try_patterns_result [OF patterns_well_grouped])

lemma two_group_patterns:
  assumes "r \<in> set [pattern1, pattern3, pattern4, pattern5]"
  shows "cap Digit 2 r \<and> num_groups r = 2"
  using assms
  by (auto simp: pattern1_def pattern3_def pattern4_def pattern5_def seq_def lit_def)

lemma two_group_match:
  assumes "r \<in> set [pattern1, pattern3, pattern4, pattern5]" and m: "re_search True r name = Some m"
  shows "match_group m 3 = Inl IndexError \<and> (\<exists>d. match_group m 2 = Inr (Some d) \<and> d \<noteq> [] \<and> list_all isdecimal d)"
proof -
  from two_group_patterns [OF assms(1)] have c2: "cap Digit 2 r" and n: "num_groups r = 2"
    by simp_all
  from re_search_captured [OF m c2] obtain d where
    d: "captures m 2 = Some d" "d \<noteq> []" "list_all (atom_ok True Digit) d"
    by auto
  from d(3) have "list_all isdecimal d" by (simp add: list_all_iff)
  with d re_search_ngroups [OF m] n show ?thesis by (simp add: match_group_def)
qed

section \<open>Substitution of a single character class\<close>

lemma match_at_atom:
  "match_at ic (Atom a) adv (bef, rest) =
     (case rest of
        [] \<Rightarrow> None
      | x # xs \<Rightarrow> if atom_ok ic a x then Some ((x # bef, xs), [0 \<mapsto> [x]]) else None)"
  by (cases rest) (simp_all add: match_at_def)

lemma sub_from_atom:
  "sub_from ic (Atom a) repl False bef rest =
     concat (map (\<lambda>x. if atom_ok ic a x then repl else [x]) rest)"
proof (induction rest arbitrary: bef)
  case Nil
  show ?case by (subst sub_from.simps) (simp add: match_at_atom)
next
  case (Cons x xs)
  show ?case by (subst sub_from.simps) (simp add: match_at_atom Cons)
qed

lemma remove_invalid_filter: "remove_invalid s = filter (\<lambda>c. c \<notin> set reserved) s"
  by (induction s) (simp_all add: remove_invalid_def re_sub_def invalid_def sub_from_atom)

lemma zfill_pad:
  assumes "e \<noteq> []" and "e \<noteq> ''+''" and "e \<noteq> ''-''"
  shows "zfill 2 e = replicate (2 - length e) CHR ''0'' @ e"
proof (cases e)
  case Nil
  with assms show ?thesis by simp
next
  case (Cons c cs)
  show ?thesis
  proof (cases cs)
    case Nil
    with Cons assms show ?thesis by (simp add: zfill_def)
  next
    case (Cons d ds)
    with \<open>e = c # cs\<close> show ?thesis by (simp add: zfill_def)
  qed
qed

lemma digits_no_sign:
  assumes "e \<noteq> []" and "list_all isdecimal e"
  shows "e \<noteq> ''+'' \<and> e \<noteq> ''-''"
  using assms by (auto simp: isdecimal_def)

section \<open>Substitution of runs, and white space\<close>

lemma greedy_hd:
  "\<exists>t. greedy ic a (bef, xs)
        = (rev (takeWhile (atom_ok ic a) xs) @ bef, dropWhile (atom_ok ic a) xs) # t"
proof (induction xs arbitrary: bef)
  case Nil
  show ?case by simp
next
  case (Cons x xs)
  from Cons.IH [of "x # bef"] show ?case by auto
qed

lemma match_at_plus:
  "(case match_at ic (Plus a) False (bef, rest) of
      None \<Rightarrow> rest = [] \<or> \<not> atom_ok ic a (hd rest)
    | Some ((bef', rest'), g) \<Rightarrow>
        rest \<noteq> [] \<and> atom_ok ic a (hd rest) \<and> rest' = dropWhile (atom_ok ic a) (tl rest))"
proof (cases rest)
  case Nil
  then show ?thesis by (simp add: match_at_def)
next
  case (Cons x xs)
  show ?thesis
  proof (cases "atom_ok ic a x")
    case False
    with Cons show ?thesis by (simp add: match_at_def)
  next
    case True
    from greedy_hd [where ic = ic and a = a and bef = "x # bef" and xs = xs] obtain t where
      "greedy ic a (x # bef, xs)
        = (rev (takeWhile (atom_ok ic a) xs) @ x # bef, dropWhile (atom_ok ic a) xs) # t"
      by blast
    with Cons True show ?thesis by (simp add: match_at_def)
  qed
qed

lemma sub_from_plus:
  "sub_from ic (Plus a) repl False bef rest = collapse (atom_ok ic a) repl rest"
proof (induction rest arbitrary: bef rule: length_induct)
  case (1 rest)
  show ?case
  proof (cases "match_at ic (Plus a) False (bef, rest)")
    case None
    with match_at_plus [where ic = ic and a = a and bef = bef and rest = rest] have no: "rest = [] \<or> \<not> atom_ok ic a (hd rest)"
      by simp
    show ?thesis
    proof (cases rest)
      case Nil
      with None show ?thesis by (subst sub_from.simps) simp
    next
      case (Cons x xs)
      with no have nx: "\<not> atom_ok ic a x" by simp
      from Cons "1.IH" have "sub_from ic (Plus a) repl False (x # bef) xs
                              = collapse (atom_ok ic a) repl xs"
        by simp
      with None Cons nx show ?thesis by (subst sub_from.simps) simp
    qed
  next
    case (Some s)
    obtain bef' rest' g where s: "s = ((bef', rest'), g)" by (cases s) auto
    with Some match_at_plus [where ic = ic and a = a and bef = bef and rest = rest]
    have ne: "rest \<noteq> []" and ok: "atom_ok ic a (hd rest)"
      and r': "rest' = dropWhile (atom_ok ic a) (tl rest)"
      by simp_all
    from ne obtain x xs where rest: "rest = x # xs" by (cases rest) auto
    with r' have len: "length rest' < length rest"
      by (simp add: le_imp_less_Suc length_dropWhile_le)
    with "1.IH" have "sub_from ic (Plus a) repl False bef' rest'
                      = collapse (atom_ok ic a) repl rest'"
      by simp
    with Some s len rest ok r' show ?thesis by (subst sub_from.simps) simp
  qed
qed

lemma re_sub_plus: "re_sub ic (Plus a) repl s = collapse (atom_ok ic a) repl s"
  by (simp add: re_sub_def sub_from_plus)

lemma nds_Cons:
  "no_double_space (x # t)
   = ((t = [] \<or> \<not> (isspace x \<and> isspace (hd t))) \<and> no_double_space t)"
  by (cases t) auto

lemma nds_append: "no_double_space (a @ b) \<Longrightarrow> no_double_space a \<and> no_double_space b"
proof (induction a)
  case Nil
  then show ?case by simp
next
  case (Cons x a)
  then show ?case by (cases a) (auto simp: nds_Cons)
qed

lemma collapse_after_run:
  "collapse P repl (dropWhile P xs) = []
   \<or> \<not> P (hd (collapse P repl (dropWhile P xs)))"
proof (cases "dropWhile P xs")
  case Nil
  show ?thesis unfolding Nil by simp
next
  case (Cons y ys)
  have "dropWhile P xs \<noteq> []" unfolding Cons by simp
  from hd_dropWhile [OF this] have "\<not> P y" unfolding Cons by simp
  then show ?thesis unfolding Cons by simp
qed

lemma collapse_spaces:
  "P = isspace \<Longrightarrow> repl = '' '' \<Longrightarrow>
     no_double_space (collapse P repl s)
     \<and> list_all (\<lambda>c. isspace c \<longrightarrow> c = CHR '' '') (collapse P repl s)"
proof (induction P repl s rule: collapse.induct)
  case (1 P repl)
  show ?case by simp
next
  case (2 P repl x xs)
  show ?case
  proof (cases "P x")
    case True
    let ?ys = "dropWhile P xs"
    from "2.IH"(1) [OF True "2.prems"] have ih: "no_double_space (collapse P repl ?ys)"
      "list_all (\<lambda>c. isspace c \<longrightarrow> c = CHR '' '') (collapse P repl ?ys)"
      by simp_all
    from collapse_after_run [of P repl xs] "2.prems"(1)
    have "collapse P repl ?ys = [] \<or> \<not> isspace (hd (collapse P repl ?ys))"
      by simp
    with ih True "2.prems" show ?thesis by (auto simp: nds_Cons)
  next
    case False
    from "2.IH"(2) [OF False "2.prems"] False "2.prems" show ?thesis
      by (auto simp: nds_Cons)
  qed
qed

lemma rev_split: "t = rev (dropWhile P (rev t)) @ rev (takeWhile P (rev t))"
proof -
  have "rev (takeWhile P (rev t) @ dropWhile P (rev t)) = rev (rev t)"
    by (simp only: takeWhile_dropWhile_id)
  then show ?thesis by (simp only: rev_append rev_rev_ident)
qed

lemma strip_suffix:
  "dropWhile isspace s = strip s @ rev (takeWhile isspace (rev (dropWhile isspace s)))"
  unfolding strip_def by (rule rev_split)

lemma strip_infix:
  "s = takeWhile isspace s @ strip s @ rev (takeWhile isspace (rev (dropWhile isspace s)))"
proof -
  have "s = takeWhile isspace s @ dropWhile isspace s" by simp
  with strip_suffix [of s] show ?thesis by metis
qed

lemma strip_trimmed: "trimmed (strip s)"
proof (cases "strip s = []")
  case True
  then show ?thesis by (simp add: trimmed_def)
next
  case False
  let ?t = "dropWhile isspace s"
  from False have d: "dropWhile isspace (rev ?t) \<noteq> []" by (simp add: strip_def)
  from hd_dropWhile [OF d] have "\<not> isspace (hd (dropWhile isspace (rev ?t)))" .
  with d have l: "\<not> isspace (last (strip s))" by (simp add: strip_def last_rev)
  have t: "?t = strip s @ rev (takeWhile isspace (rev ?t))"
    by (rule strip_suffix)
  with False have tn: "?t \<noteq> []" by (metis Nil_is_append_conv)
  from t False have "hd ?t = hd (strip s)" by (metis hd_append2)
  with hd_dropWhile [OF tn] have "\<not> isspace (hd (strip s))" by simp
  with l show ?thesis by (simp add: trimmed_def)
qed

lemma strip_no_double_space: "no_double_space s \<Longrightarrow> no_double_space (strip s)"
proof -
  assume a: "no_double_space s"
  have "no_double_space (takeWhile isspace s @ strip s
          @ rev (takeWhile isspace (rev (dropWhile isspace s))))"
    using a strip_infix [of s] by simp
  then have "no_double_space (strip s @ rev (takeWhile isspace (rev (dropWhile isspace s))))"
    using nds_append by blast
  then show ?thesis using nds_append by blast
qed

lemma set_strip: "set (strip s) \<subseteq> set s"
proof -
  have "set (strip s) \<subseteq> set (takeWhile isspace s @ strip s
          @ rev (takeWhile isspace (rev (dropWhile isspace s))))"
    by auto
  with strip_infix [of s] show ?thesis by simp
qed

lemma strip_id: "trimmed s \<Longrightarrow> strip s = s"
proof (cases s)
  case Nil
  then show ?thesis by (simp add: strip_def)
next
  case (Cons x xs)
  assume "trimmed s"
  with Cons have h: "\<not> isspace (hd s)" and l: "\<not> isspace (last s)"
    by (simp_all add: trimmed_def)
  from h Cons have a: "dropWhile isspace s = s" by simp
  from Cons have ne: "s \<noteq> []" by simp
  then have "rev s \<noteq> []" by simp
  moreover from l ne have "\<not> isspace (hd (rev s))" by (simp add: hd_rev)
  ultimately have "dropWhile isspace (rev s) = rev s" by (cases "rev s") simp_all
  with a show ?thesis by (simp add: strip_def)
qed

lemma clean_name_single_spaced: "single_spaced (clean_name s)"
proof -
  let ?u = "re_sub False spaces '' '' (re_sub False separators '' '' s)"
  have u: "?u = collapse isspace '' '' (re_sub False separators '' '' s)"
    by (simp add: spaces_def re_sub_plus) (metis atom_ok.simps(3))
  from collapse_spaces [of isspace "'' ''" "re_sub False separators '' '' s"] u
  have nd: "no_double_space ?u" and pl: "list_all (\<lambda>c. isspace c \<longrightarrow> c = CHR '' '') ?u"
    by simp_all
  from pl set_strip [of ?u] have "list_all (\<lambda>c. isspace c \<longrightarrow> c = CHR '' '') (strip ?u)"
    by (auto simp: list_all_iff)
  with strip_no_double_space [OF nd] strip_trimmed [of ?u] show ?thesis
    by (simp add: single_spaced_def clean_name_def)
qed

lemma remove_quality_trimmed: "trimmed (remove_quality s)"
  by (simp add: remove_quality_def strip_trimmed)

lemma remove_quality_nothing:
  "re_sub True quality [] (clean_name s) = clean_name s \<Longrightarrow>
     remove_quality (clean_name s) = clean_name s"
  using clean_name_single_spaced [of s] by (simp add: remove_quality_def single_spaced_def strip_id)

section \<open>Substitution of the quality tags\<close>

lemma upper_isword: "x \<in> set ''ABCDEFGHIJKLMNOPQRSTUVWXYZ'' \<Longrightarrow> isword x"
  by (auto simp: isword_def)

lemma lower_digit_isword: "x \<in> set ''abcdefghijklmnopqrstuvwxyz0123456789'' \<Longrightarrow> isword x"
  by (auto simp: isword_def)

lemma ascii_lower_other: "x \<notin> set ''ABCDEFGHIJKLMNOPQRSTUVWXYZ'' \<Longrightarrow> ascii_lower x = x"
  by (simp add: ascii_lower_def)

lemma ascii_lower_isword:
  assumes "ascii_lower x \<in> set ''abcdefghijklmnopqrstuvwxyz0123456789''"
  shows "isword x"
proof (cases "x \<in> set ''ABCDEFGHIJKLMNOPQRSTUVWXYZ''")
  case True
  then show ?thesis by (rule upper_isword)
next
  case False
  then have "ascii_lower x = x" by (rule ascii_lower_other)
  with assms show ?thesis using lower_digit_isword by simp
qed

lemma isspace_not_isword: "isspace x \<Longrightarrow> \<not> isword x"
  by (auto simp: isspace_def isword_def)

lemma is_tag_word:
  assumes "is_tag w"
  shows "w \<noteq> [] \<and> list_all isword w"
proof -
  from assms have "map ascii_lower w \<in> set [''720p'', ''1080p'', ''480p'', ''bd'', ''bluray'', ''web'', ''hdtv'']"
    by (simp add: is_tag_def quality_tags_def ascii_lower_def)
  then have "map ascii_lower w \<noteq> []
             \<and> set (map ascii_lower w) \<subseteq> set ''abcdefghijklmnopqrstuvwxyz0123456789''"
    by auto
  then have "w \<noteq> []" and "\<forall>x \<in> set w. ascii_lower x \<in> set ''abcdefghijklmnopqrstuvwxyz0123456789''"
    by auto
  with ascii_lower_isword show ?thesis by (simp add: list_all_iff)
qed

lemma rmatch_seq_iff:
  "(q, g') \<in> set (rmatch ic (Seq r1 r2) (p, g))
   = (\<exists>p1 g1. (p1, g1) \<in> set (rmatch ic r1 (p, g)) \<and> (q, g') \<in> set (rmatch ic r2 (p1, g1)))"
  by auto

lemma lit_match_iff:
  "((bef', rest'), g') \<in> set (rmatch True (lit s) ((bef, rest), g))
   = (g' = g \<and> (\<exists>w. rest = w @ rest' \<and> bef' = rev w @ bef
                     \<and> map ascii_lower w = map ascii_lower s))"
proof (induction s arbitrary: bef rest)
  case Nil
  show ?case by (auto simp: lit_def seq_def)
next
  case (Cons c s)
  have step: "((bef', rest'), g') \<in> set (rmatch True (lit (c # s)) ((bef, rest), g))
        = (\<exists>x xs. rest = x # xs \<and> ascii_lower x = ascii_lower c
             \<and> ((bef', rest'), g') \<in> set (rmatch True (lit s) ((x # bef, xs), g)))"
    by (cases rest) (auto simp: lit_def seq_def)
  show ?case
  proof
    assume "((bef', rest'), g') \<in> set (rmatch True (lit (c # s)) ((bef, rest), g))"
    with step obtain x xs where x: "rest = x # xs" "ascii_lower x = ascii_lower c"
      and m: "((bef', rest'), g') \<in> set (rmatch True (lit s) ((x # bef, xs), g))"
      by blast
    from m Cons.IH [of "x # bef" xs] obtain w where
      "g' = g" "xs = w @ rest'" "bef' = rev w @ x # bef" "map ascii_lower w = map ascii_lower s"
      by blast
    with x have "g' = g \<and> rest = (x # w) @ rest' \<and> bef' = rev (x # w) @ bef
                 \<and> map ascii_lower (x # w) = map ascii_lower (c # s)"
      by simp
    then show "g' = g \<and> (\<exists>w. rest = w @ rest' \<and> bef' = rev w @ bef
                     \<and> map ascii_lower w = map ascii_lower (c # s))"
      by blast
  next
    assume "g' = g \<and> (\<exists>w. rest = w @ rest' \<and> bef' = rev w @ bef
                     \<and> map ascii_lower w = map ascii_lower (c # s))"
    then obtain w where g: "g' = g" and w: "rest = w @ rest'" "bef' = rev w @ bef"
      "map ascii_lower w = map ascii_lower (c # s)"
      by blast
    from w(3) obtain x w' where xw: "w = x # w'" "ascii_lower x = ascii_lower c"
      "map ascii_lower w' = map ascii_lower s"
      by (cases w) auto
    with w g have "((bef', rest'), g') \<in> set (rmatch True (lit s) ((x # bef, w' @ rest'), g))"
      using Cons.IH [of "x # bef" "w' @ rest'"] by auto
    with step xw w show "((bef', rest'), g') \<in> set (rmatch True (lit (c # s)) ((bef, rest), g))"
      by auto
  qed
qed

lemma alt_match_iff:
  "rs \<noteq> [] \<Longrightarrow>
     (s' \<in> set (rmatch ic (alt rs) (p, g))) = (\<exists>r \<in> set rs. s' \<in> set (rmatch ic r (p, g)))"
proof (induction rs rule: alt.induct)
  case 1
  then show ?case by simp
next
  case (2 r)
  show ?case by simp
next
  case (3 r v va)
  then show ?case by auto
qed

lemma quality_match_iff:
  "(\<exists>g'. ((bef', rest'), g') \<in> set (rmatch True quality ((bef, rest), g)))
   = (at_boundary (bef, rest) \<and> at_boundary (bef', rest')
      \<and> (\<exists>w. rest = w @ rest' \<and> bef' = rev w @ bef \<and> is_tag w))"
proof -
  let ?tags = "map lit quality_tags"
  have q: "quality = Seq WordB (Seq (Group 1 (alt ?tags)) (Seq WordB Eps))"
    by (simp add: quality_def seq_def quality_tags_def)
  have ne: "?tags \<noteq> []" by (simp add: quality_tags_def)
  have inner: "(((b1, r1), g1) \<in> set (rmatch True (alt ?tags) ((bef, rest), g)))
        = (g1 = g \<and> (\<exists>w. rest = w @ r1 \<and> b1 = rev w @ bef \<and> is_tag w))" for b1 r1 g1
    unfolding alt_match_iff [OF ne]
    by (auto simp: lit_match_iff is_tag_def)
  show ?thesis
  proof
    assume "\<exists>g'. ((bef', rest'), g') \<in> set (rmatch True quality ((bef, rest), g))"
    then obtain g' where "((bef', rest'), g') \<in> set (rmatch True quality ((bef, rest), g))"
      by blast
    then have b: "at_boundary (bef, rest)"
      and "\<exists>g1. ((bef', rest'), g1) \<in> set (rmatch True (alt ?tags) ((bef, rest), g))
                  \<and> at_boundary (bef', rest')"
      unfolding q by (auto split: if_splits)
    with inner show "at_boundary (bef, rest) \<and> at_boundary (bef', rest')
      \<and> (\<exists>w. rest = w @ rest' \<and> bef' = rev w @ bef \<and> is_tag w)"
      by blast
  next
    assume a: "at_boundary (bef, rest) \<and> at_boundary (bef', rest')
      \<and> (\<exists>w. rest = w @ rest' \<and> bef' = rev w @ bef \<and> is_tag w)"
    with inner have "((bef', rest'), g) \<in> set (rmatch True (alt ?tags) ((bef, rest), g))"
      by blast
    with a show "\<exists>g'. ((bef', rest'), g') \<in> set (rmatch True quality ((bef, rest), g))"
      unfolding q by force
  qed
qed

lemma match_at_first:
  "match_at ic r False p
   = (case rmatch ic (Group 0 r) (p, Map.empty) of [] \<Rightarrow> None | s # _ \<Rightarrow> Some s)"
  by (cases "rmatch ic (Group 0 r) (p, Map.empty)") (auto simp: match_at_def)

lemma group0_quality_iff:
  "(\<exists>g'. ((bef', rest'), g') \<in> set (rmatch True (Group 0 quality) ((bef, rest), Map.empty)))
   = (at_boundary (bef, rest) \<and> at_boundary (bef', rest')
      \<and> (\<exists>w. rest = w @ rest' \<and> bef' = rev w @ bef \<and> is_tag w))"
proof -
  have "(\<exists>g'. ((bef', rest'), g') \<in> set (rmatch True (Group 0 quality) ((bef, rest), Map.empty)))
        = (\<exists>g1. ((bef', rest'), g1) \<in> set (rmatch True quality ((bef, rest), Map.empty)))"
    by force
  then show ?thesis by (simp only: quality_match_iff)
qed

lemma at_boundary_after_word:
  "b \<noteq> [] \<Longrightarrow> isword (hd b) \<Longrightarrow> at_boundary (b, d) = (d = [] \<or> \<not> isword (hd d))"
  by (cases b; cases d) (auto simp: at_boundary_def)

lemma at_boundary_before_word:
  "r \<noteq> [] \<Longrightarrow> isword (hd r) \<Longrightarrow> at_boundary (b, r) = (b = [] \<or> \<not> isword (hd b))"
  by (cases b; cases r) (auto simp: at_boundary_def)

lemma takeWhile_run: "list_all P w \<Longrightarrow> d = [] \<or> \<not> P (hd d) \<Longrightarrow> takeWhile P (w @ d) = w"
  by (induction w) (auto simp: takeWhile_eq_Nil_iff)

lemma dropWhile_run: "list_all P w \<Longrightarrow> d = [] \<or> \<not> P (hd d) \<Longrightarrow> dropWhile P (w @ d) = d"
  by (induction w) (auto simp: dropWhile_eq_self_iff)

lemma tag_match_is_run:
  assumes "at_boundary (bef, rest)" and "at_boundary (bef', rest')"
    and "rest = w @ rest'" and "bef' = rev w @ bef" and "is_tag w"
  shows "rest \<noteq> [] \<and> isword (hd rest) \<and> (bef = [] \<or> \<not> isword (hd bef))
         \<and> w = takeWhile isword rest \<and> rest' = dropWhile isword rest"
proof -
  from is_tag_word [OF assms(5)] have ne: "w \<noteq> []" and ws: "list_all isword w" by simp_all
  from ne ws have hw: "isword (hd w)" and lw: "isword (last w)"
    by (simp_all add: list_all_iff)
  from ne assms(3) have r: "rest \<noteq> []" "hd rest = hd w" by simp_all
  with hw have hr: "isword (hd rest)" by simp
  from assms(1) have b: "bef = [] \<or> \<not> isword (hd bef)"
    unfolding at_boundary_before_word [OF r(1) hr] .
  from ne assms(4) have b': "bef' \<noteq> []" "hd bef' = last w" by (simp_all add: hd_rev)
  with lw have hb: "isword (hd bef')" by simp
  from assms(2) have e: "rest' = [] \<or> \<not> isword (hd rest')"
    unfolding at_boundary_after_word [OF b'(1) hb] .
  from takeWhile_run [OF ws e] dropWhile_run [OF ws e] assms(3) r hr b show ?thesis by simp
qed

lemma run_is_tag_match:
  assumes "rest \<noteq> []" and "isword (hd rest)" and "bef = [] \<or> \<not> isword (hd bef)"
    and "is_tag (takeWhile isword rest)"
  shows "at_boundary (bef, rest)
         \<and> at_boundary (rev (takeWhile isword rest) @ bef, dropWhile isword rest)"
proof -
  let ?w = "takeWhile isword rest"
  from is_tag_word [OF assms(4)] have ne: "?w \<noteq> []" and ws: "list_all isword ?w" by simp_all
  then have lw: "isword (last ?w)" by (simp add: list_all_iff)
  from assms(3) have a: "at_boundary (bef, rest)"
    unfolding at_boundary_before_word [OF assms(1,2)] .
  have d: "dropWhile isword rest = [] \<or> \<not> isword (hd (dropWhile isword rest))"
    using hd_dropWhile [of isword rest] by blast
  from ne have n: "rev ?w @ bef \<noteq> []" by simp
  from ne have "hd (rev ?w @ bef) = last ?w" by (simp add: hd_rev)
  with lw have h: "isword (hd (rev ?w @ bef))" by simp
  from d have "at_boundary (rev ?w @ bef, dropWhile isword rest)"
    unfolding at_boundary_after_word [OF n h] .
  with a show ?thesis by simp
qed

lemma match_at_quality_none:
  assumes "\<not> (rest \<noteq> [] \<and> isword (hd rest) \<and> (bef = [] \<or> \<not> isword (hd bef))
              \<and> is_tag (takeWhile isword rest))"
  shows "match_at True quality False (bef, rest) = None"
proof (cases "rmatch True (Group 0 quality) ((bef, rest), Map.empty)")
  case Nil
  then show ?thesis by (simp add: match_at_first)
next
  case (Cons s ss)
  obtain bef' rest' g' where s: "s = ((bef', rest'), g')" by (cases s) auto
  with Cons have "\<exists>g'. ((bef', rest'), g') \<in> set (rmatch True (Group 0 quality) ((bef, rest), Map.empty))"
    by auto
  then obtain w where "at_boundary (bef, rest)" "at_boundary (bef', rest')"
    "rest = w @ rest'" "bef' = rev w @ bef" "is_tag w"
    unfolding group0_quality_iff by blast
  from tag_match_is_run [OF this] this(5) assms show ?thesis by simp
qed

lemma match_at_quality_some:
  assumes "rest \<noteq> []" and "isword (hd rest)" and "bef = [] \<or> \<not> isword (hd bef)"
    and "is_tag (takeWhile isword rest)"
  shows "\<exists>g'. match_at True quality False (bef, rest)
               = Some ((rev (takeWhile isword rest) @ bef, dropWhile isword rest), g')"
proof -
  let ?w = "takeWhile isword rest"
  from run_is_tag_match [OF assms] assms(4)
  have "at_boundary (bef, rest) \<and> at_boundary (rev ?w @ bef, dropWhile isword rest)
        \<and> (\<exists>w. rest = w @ dropWhile isword rest \<and> rev ?w @ bef = rev w @ bef \<and> is_tag w)"
    by (intro conjI exI [of _ ?w]) simp_all
  then have ex: "\<exists>g'. ((rev ?w @ bef, dropWhile isword rest), g')
                   \<in> set (rmatch True (Group 0 quality) ((bef, rest), Map.empty))"
    unfolding group0_quality_iff .
  then obtain s ss where l: "rmatch True (Group 0 quality) ((bef, rest), Map.empty) = s # ss"
    by (cases "rmatch True (Group 0 quality) ((bef, rest), Map.empty)") auto
  obtain bef' rest' g' where s: "s = ((bef', rest'), g')" by (cases s) auto
  with l have "\<exists>g'. ((bef', rest'), g') \<in> set (rmatch True (Group 0 quality) ((bef, rest), Map.empty))"
    by auto
  then obtain w where "at_boundary (bef, rest)" "at_boundary (bef', rest')"
    "rest = w @ rest'" "bef' = rev w @ bef" "is_tag w"
    unfolding group0_quality_iff by blast
  from tag_match_is_run [OF this] this(4)
  have "bef' = rev ?w @ bef" "rest' = dropWhile isword rest" by simp_all
  with l s show ?thesis by (simp add: match_at_first)
qed

lemma sub_from_inside_run:
  "isword b \<Longrightarrow> list_all isword r \<Longrightarrow>
     sub_from True quality [] False (b # bef) (r @ rest)
     = r @ sub_from True quality [] False (rev r @ b # bef) rest"
proof (induction r arbitrary: b bef)
  case Nil
  show ?case by simp
next
  case (Cons y r)
  from Cons.prems have y: "isword y" and r: "list_all isword r" by simp_all
  from Cons.prems(1) have "match_at True quality False (b # bef, (y # r) @ rest) = None"
    by (intro match_at_quality_none) simp
  then have "sub_from True quality [] False (b # bef) ((y # r) @ rest)
             = y # sub_from True quality [] False (y # b # bef) (r @ rest)"
    by (subst sub_from.simps) simp
  also have "\<dots> = y # r @ sub_from True quality [] False (rev r @ y # b # bef) rest"
    using Cons.IH [OF y r] by simp
  finally show ?case by simp
qed

lemma sub_from_quality:
  "(bef = [] \<or> \<not> isword (hd bef)) \<or> (rest = [] \<or> \<not> isword (hd rest)) \<Longrightarrow>
     sub_from True quality [] False bef rest = delete_tags rest"
proof (induction rest arbitrary: bef rule: length_induct)
  case (1 rest)
  show ?case
  proof (cases rest)
    case Nil
    have "match_at True quality False (bef, []) = None"
      by (intro match_at_quality_none) simp
    with Nil show ?thesis by (subst sub_from.simps) simp
  next
    case (Cons x xs)
    show ?thesis
    proof (cases "isword x")
      case False
      with Cons have "match_at True quality False (bef, rest) = None"
        by (intro match_at_quality_none) simp
      with Cons have "sub_from True quality [] False bef rest
                      = x # sub_from True quality [] False (x # bef) xs"
        by (subst sub_from.simps) simp
      moreover from False Cons "1.IH" have "sub_from True quality [] False (x # bef) xs
                                            = delete_tags xs"
        by simp
      ultimately show ?thesis using Cons False by (simp add: delete_tags.simps(2))
    next
      case True
      with Cons "1.prems" have start: "bef = [] \<or> \<not> isword (hd bef)" by simp
      let ?w = "takeWhile isword rest"
      let ?d = "dropWhile isword rest"
      have d: "?d = [] \<or> \<not> isword (hd ?d)" using hd_dropWhile [of isword rest] by blast
      have len: "length ?d < length rest"
        using Cons True by (simp add: le_imp_less_Suc length_dropWhile_le)
      have ih: "sub_from True quality [] False b ?d = delete_tags ?d" for b
        using "1.IH" len d by blast
      show ?thesis
      proof (cases "is_tag ?w")
        case tag: True
        from Cons True have "rest \<noteq> []" "isword (hd rest)" by simp_all
        from match_at_quality_some [OF this start tag] obtain g' where
          "match_at True quality False (bef, rest) = Some ((rev ?w @ bef, ?d), g')"
          by blast
        with len have "sub_from True quality [] False bef rest
                       = sub_from True quality [] False (rev ?w @ bef) ?d"
          by (subst sub_from.simps) simp
        with ih tag Cons True show ?thesis by (simp add: delete_tags.simps(2))
      next
        case notag: False
        then have "match_at True quality False (bef, rest) = None"
          by (intro match_at_quality_none) simp
        with Cons have copy: "sub_from True quality [] False bef rest
                              = x # sub_from True quality [] False (x # bef) xs"
          by (subst sub_from.simps) simp
        define r where "r = takeWhile isword xs"
        have xs: "xs = r @ ?d" and w: "?w = x # r"
          unfolding r_def using Cons True by simp_all
        have "list_all isword r" unfolding r_def by (induction xs) auto
        from sub_from_inside_run [OF True this]
        have "sub_from True quality [] False (x # bef) (r @ ?d)
              = r @ sub_from True quality [] False (rev r @ x # bef) ?d" .
        with copy xs ih have "sub_from True quality [] False bef rest = (x # r) @ delete_tags ?d"
          by simp
        moreover from delete_tags.simps(2) [of x xs] notag Cons True w
        have "delete_tags rest = (x # r) @ delete_tags ?d"
          by simp
        ultimately show ?thesis by simp
      qed
    qed
  qed
qed

lemma re_sub_quality: "re_sub True quality [] s = delete_tags s"
  by (simp add: re_sub_def sub_from_quality)

lemma dropWhile_all: "list_all P s \<Longrightarrow> dropWhile P s = []"
  by (induction s) auto

lemma takeWhile_whole: "list_all P s \<Longrightarrow> takeWhile P s = s"
  by (induction s) auto

lemma dropWhile_nil_all: "dropWhile P s = [] \<Longrightarrow> list_all P s"
  by (induction s) (auto split: if_splits)

lemma dropWhile_stop: "dropWhile P s = [] \<or> \<not> P (hd (dropWhile P s))"
  using hd_dropWhile [of P s] by blast

lemma list_all_takeWhile: "list_all P (takeWhile P s)"
  by (induction s) auto

lemma strip_empty_iff: "strip s = [] \<longleftrightarrow> list_all isspace s"
proof
  assume e: "strip s = []"
  define t where "t = dropWhile isspace s"
  from e have "dropWhile isspace (rev t) = []" by (simp add: strip_def t_def)
  then have "list_all isspace (rev t)" by (rule dropWhile_nil_all)
  then have a: "list_all isspace t" by (simp add: list_all_iff)
  have "t = [] \<or> \<not> isspace (hd t)" unfolding t_def by (rule dropWhile_stop)
  with a have "t = []" by (cases t) auto
  then show "list_all isspace s" unfolding t_def by (rule dropWhile_nil_all)
next
  assume "list_all isspace s"
  then have d: "dropWhile isspace s = []" by (rule dropWhile_all)
  show "strip s = []" unfolding strip_def d by simp
qed

lemma delete_tags_at_word:
  "s \<noteq> [] \<Longrightarrow> isword (hd s) \<Longrightarrow>
     delete_tags s = (if is_tag (takeWhile isword s) then [] else takeWhile isword s)
                     @ delete_tags (dropWhile isword s)"
  by (cases s) (simp_all add: delete_tags.simps(2))

lemma delete_tags_at_other:
  "s \<noteq> [] \<Longrightarrow> \<not> isword (hd s) \<Longrightarrow> delete_tags s = hd s # delete_tags (tl s)"
  by (cases s) (simp_all add: delete_tags.simps(2))

lemma set_delete_tags: "set (delete_tags s) \<subseteq> set s"
proof (induction s rule: length_induct)
  case (1 s)
  show ?case
  proof (cases "s = []")
    case True
    then show ?thesis by simp
  next
    case ne: False
    show ?thesis
    proof (cases "isword (hd s)")
      case True
      define w where "w = takeWhile isword s"
      define d where "d = dropWhile isword s"
      have s: "s = w @ d" unfolding w_def d_def by simp
      have "w \<noteq> []" unfolding w_def using ne True by (cases s) simp_all
      with s have "length d < length s" by simp
      with "1.IH" have "set (delete_tags d) \<subseteq> set d" by blast
      moreover have "delete_tags s = (if is_tag w then [] else w) @ delete_tags d"
        unfolding w_def d_def by (rule delete_tags_at_word [OF ne True])
      ultimately show ?thesis using s by auto
    next
      case False
      from ne obtain x xs where s: "s = x # xs" by (cases s) auto
      with "1.IH" have "set (delete_tags xs) \<subseteq> set xs" by simp
      moreover from delete_tags_at_other [OF ne False] s
      have "delete_tags s = x # delete_tags xs" by simp
      ultimately show ?thesis using s by auto
    qed
  qed
qed

lemma delete_tags_append:
  "b = [] \<or> \<not> isword (hd b) \<Longrightarrow> delete_tags (a @ b) = delete_tags a @ delete_tags b"
proof (induction a rule: length_induct)
  case (1 a)
  show ?case
  proof (cases "a = []")
    case True
    then show ?thesis by simp
  next
    case ne: False
    then have nab: "a @ b \<noteq> []" and hab: "hd (a @ b) = hd a" by simp_all
    show ?thesis
    proof (cases "isword (hd a)")
      case False
      from ne obtain x xs where a: "a = x # xs" by (cases a) auto
      with "1.IH" "1.prems" have "delete_tags (xs @ b) = delete_tags xs @ delete_tags b"
        by simp
      moreover from delete_tags_at_other [OF ne False] a
      have "delete_tags a = x # delete_tags xs" by simp
      moreover from delete_tags_at_other [OF nab] hab False a
      have "delete_tags (a @ b) = x # delete_tags (xs @ b)" by simp
      ultimately show ?thesis by simp
    next
      case True
      define w where "w = takeWhile isword a"
      define d where "d = dropWhile isword a"
      have a: "a = w @ d" unfolding w_def d_def by simp
      have ws: "list_all isword w" unfolding w_def by (rule list_all_takeWhile)
      have dd: "d = [] \<or> \<not> isword (hd d)" unfolding d_def by (rule dropWhile_stop)
      have db: "d @ b = [] \<or> \<not> isword (hd (d @ b))"
      proof (cases "d = []")
        case True
        with "1.prems" show ?thesis by simp
      next
        case False
        with dd show ?thesis by simp
      qed
      have tw: "takeWhile isword (a @ b) = w"
        using takeWhile_run [OF ws db] a by simp
      have dw: "dropWhile isword (a @ b) = d @ b"
        using dropWhile_run [OF ws db] a by simp
      have "w \<noteq> []" unfolding w_def using ne True by (cases a) simp_all
      with a have "length d < length a" by simp
      with "1.IH" "1.prems" have ih: "delete_tags (d @ b) = delete_tags d @ delete_tags b"
        by blast
      from True hab have "isword (hd (a @ b))" by simp
      from delete_tags_at_word [OF nab this]
      have l: "delete_tags (a @ b) = (if is_tag w then [] else w) @ delete_tags (d @ b)"
        unfolding tw dw .
      from delete_tags_at_word [OF ne True]
      have r: "delete_tags a = (if is_tag w then [] else w) @ delete_tags d"
        unfolding w_def d_def .
      from l r ih show ?thesis by simp
    qed
  qed
qed

lemma delete_tags_run:
  assumes "w \<noteq> []" and "list_all isword w"
  shows "delete_tags w = (if is_tag w then [] else w)"
proof -
  from assms have h: "isword (hd w)" by (cases w) simp_all
  from delete_tags_at_word [OF assms(1) h] show ?thesis
    unfolding takeWhile_whole [OF assms(2)] dropWhile_all [OF assms(2)] by simp
qed

lemma delete_tags_empty:
  assumes "w \<noteq> []" and "delete_tags w = []"
  shows "is_tag w"
proof -
  have h: "isword (hd w)"
  proof (rule ccontr)
    assume "\<not> isword (hd w)"
    from delete_tags_at_other [OF assms(1) this] assms(2) show False by simp
  qed
  define r where "r = takeWhile isword w"
  define d where "d = dropWhile isword w"
  have w: "w = r @ d" unfolding r_def d_def by simp
  have rn: "r \<noteq> []" unfolding r_def using assms(1) h by (cases w) simp_all
  from delete_tags_at_word [OF assms(1) h] assms(2)
  have e: "(if is_tag r then [] else r) @ delete_tags d = []"
    unfolding r_def d_def by simp
  with rn have tag: "is_tag r" and de: "delete_tags d = []"
    by (auto split: if_splits)
  have "d = []"
  proof (rule ccontr)
    assume dn: "d \<noteq> []"
    have "d = [] \<or> \<not> isword (hd d)" unfolding d_def by (rule dropWhile_stop)
    with dn have "\<not> isword (hd d)" by simp
    from delete_tags_at_other [OF dn this] de show False by simp
  qed
  with w tag show ?thesis by simp
qed

lemma delete_tags_word:
  assumes "w \<noteq> []" and "list_all (\<lambda>c. \<not> isspace c) w"
  shows "list_all isspace (delete_tags w) \<longleftrightarrow> is_tag w"
proof
  assume a: "list_all isspace (delete_tags w)"
  have "delete_tags w = []"
  proof (rule ccontr)
    assume "delete_tags w \<noteq> []"
    then obtain y ys where c: "delete_tags w = y # ys" by (cases "delete_tags w") auto
    then have "y \<in> set (delete_tags w)" by simp
    with set_delete_tags [of w] assms(2) have "\<not> isspace y" by (auto simp: list_all_iff)
    with a c show False by simp
  qed
  with assms(1) show "is_tag w" by (rule delete_tags_empty)
next
  assume t: "is_tag w"
  from is_tag_word [OF t] have "w \<noteq> []" "list_all isword w" by simp_all
  from delete_tags_run [OF this] t show "list_all isspace (delete_tags w)" by simp
qed

lemma delete_tags_words:
  "list_all isspace (delete_tags s) \<longleftrightarrow> list_all is_tag (split_words s)"
proof (induction s rule: length_induct)
  case (1 s)
  show ?case
  proof (cases s)
    case Nil
    then show ?thesis by simp
  next
    case (Cons x xs)
    show ?thesis
    proof (cases "isspace x")
      case True
      then have "\<not> isword x" by (rule isspace_not_isword)
      with Cons have "delete_tags s = x # delete_tags xs" by (simp add: delete_tags.simps(2))
      moreover from True Cons have "split_words s = split_words xs"
        by (simp add: split_words.simps(2))
      moreover from "1.IH" Cons
      have "list_all isspace (delete_tags xs) \<longleftrightarrow> list_all is_tag (split_words xs)"
        by simp
      ultimately show ?thesis using True by simp
    next
      case False
      define w where "w = takeWhile (\<lambda>c. \<not> isspace c) s"
      define d where "d = dropWhile (\<lambda>c. \<not> isspace c) s"
      have s: "s = w @ d" unfolding w_def d_def by simp
      have wn: "w \<noteq> []" unfolding w_def using Cons False by simp
      have ws: "list_all (\<lambda>c. \<not> isspace c) w" unfolding w_def by (rule list_all_takeWhile)
      have "d = [] \<or> \<not> \<not> isspace (hd d)" unfolding d_def by (rule dropWhile_stop)
      then have dd: "d = [] \<or> \<not> isword (hd d)" using isspace_not_isword by blast
      from wn s have "length d < length s" by simp
      with "1.IH"
      have ih: "list_all isspace (delete_tags d) \<longleftrightarrow> list_all is_tag (split_words d)"
        by blast
      have sw: "split_words s = w # split_words d"
        unfolding w_def d_def using Cons False by (simp add: split_words.simps(2))
      have "delete_tags (w @ d) = delete_tags w @ delete_tags d"
        by (rule delete_tags_append [OF dd])
      with s have "list_all isspace (delete_tags s)
               = (list_all isspace (delete_tags w) \<and> list_all isspace (delete_tags d))"
        by simp
      with delete_tags_word [OF wn ws] ih sw show ?thesis by simp
    qed
  qed
qed

lemma remove_quality_empty_iff:
  "remove_quality s = [] \<longleftrightarrow> list_all is_tag (split_words s)"
  by (simp add: remove_quality_def re_sub_quality strip_empty_iff delete_tags_words)

lemma try_patterns_first:
  assumes "list_all well_grouped rs"
  shows "case find (\<lambda>r. re_search True r name \<noteq> None) rs of
           None \<Rightarrow> try_patterns rs name = Inr (name, None)
         | Some r \<Rightarrow>
             \<exists>m raw e. re_search True r name = Some m
               \<and> match_group m 1 = Inr (Some raw) \<and> raw \<noteq> []
               \<and> (case match_group m 2 of
                     Inl err \<Rightarrow> Inl err
                   | Inr g2 \<Rightarrow> if truthy g2 then Inr g2 else match_group m 3) = Inr e
               \<and> try_patterns rs name = Inr (remove_quality (clean_name (strip raw)), e)"
  using assms
proof (induction rs)
  case Nil
  show ?case by simp
next
  case (Cons r rs)
  then have wg: "well_grouped r" and rest: "list_all well_grouped rs" by simp_all
  show ?case
  proof (cases "re_search True r name")
    case None
    then have t: "try_patterns (r # rs) name = try_patterns rs name" by simp
    from None have f: "find (\<lambda>r. re_search True r name \<noteq> None) (r # rs)
                       = find (\<lambda>r. re_search True r name \<noteq> None) rs"
      by simp
    from Cons.IH [OF rest] show ?thesis unfolding t f .
  next
    case (Some m)
    from matched_result [OF wg Some] obtain raw e where
      r: "raw \<noteq> []" "match_group m 1 = Inr (Some raw)"
      "(case match_group m 2 of Inl err \<Rightarrow> Inl err
        | Inr g2 \<Rightarrow> if truthy g2 then Inr g2 else match_group m 3) = Inr e"
      by blast
    with Some have "try_patterns (r # rs) name
                      = Inr (remove_quality (clean_name (strip raw)), e)"
      by simp
    with Some r show ?thesis by auto
  qed
qed

lemma splitext_stem_empty_iff: "fst (splitext f) = [] \<longleftrightarrow> f = []"
proof
  assume "fst (splitext f) = []"
  with splitext_stem_nonempty [of f] show "f = []" by blast
next
  assume "f = []"
  with splitext_append [of f] show "fst (splitext f) = []" by simp
qed

section \<open>The claims\<close>

text \<open>
  C1. The scenario of the spec: for the file name
  \<^verbatim>\<open>[SubGroup] Great Anime - 05 [720p].mkv\<close> the first pattern matches the stem, with
  \<^verbatim>\<open>Great Anime\<close> as group 1 and \<^verbatim>\<open>05\<close> as group 2; \<^verbatim>\<open>extract_anime_info\<close> returns the
  name \<^verbatim>\<open>Great Anime\<close> and the episode \<^verbatim>\<open>05\<close>; and \<^verbatim>\<open>generate_new_filename\<close> on that
  result and the original file name returns \<^verbatim>\<open>Great Anime - Episode 05.mkv\<close>.
\<close>

theorem scenario_great_anime:
  "map_option (\<lambda>m. (match_group m 1, match_group m 2))
     (re_search True pattern1 (fst (splitext ''[SubGroup] Great Anime - 05 [720p].mkv'')))
     = Some (Inr (Some ''Great Anime''), Inr (Some ''05''))
   \<and> extract_anime_info ''[SubGroup] Great Anime - 05 [720p].mkv''
     = Inr (''Great Anime'', Some ''05'')
   \<and> generate_new_filename ''Great Anime'' (Some ''05'') ''[SubGroup] Great Anime - 05 [720p].mkv''
     = ''Great Anime - Episode 05.mkv''"
  by code_simp

text \<open>
  C2. \<^verbatim>\<open>extract_anime_info\<close> returns a result for every file name, the empty one
  included: no path raises. The functions of the model are total, so it terminates; an
  exception of the source is a result \<open>Inl\<close>, and the result is always \<open>Inr\<close>. For the
  patterns with two groups (the first, third, fourth and fifth) a match always has a
  non-empty string of digits as group 2, so \<^verbatim>\<open>match.group(3)\<close>, which would raise
  IndexError for them, is never evaluated.
\<close>

theorem extract_anime_info_total:
  "(\<exists>anime_name episode. extract_anime_info filename = Inr (anime_name, episode))
   \<and> extract_anime_info [] = Inr ([], None)
   \<and> (\<forall>r \<in> set [pattern1, pattern3, pattern4, pattern5]. \<forall>m.
        re_search True r name = Some m \<longrightarrow>
          match_group m 3 = Inl IndexError
          \<and> (\<exists>d. match_group m 2 = Inr (Some d) \<and> d \<noteq> [] \<and> list_all isdecimal d))"
proof -
  have a: "\<exists>anime_name episode. extract_anime_info filename = Inr (anime_name, episode)"
    using extract_anime_info_result [of filename] by blast
  have b: "extract_anime_info [] = Inr ([], None)"
    by code_simp
  from a b two_group_match show ?thesis by blast
qed

theorem extract_anime_info_total_witness:
  "extract_anime_info ''Show - 7.mkv'' = Inr (''Show'', Some ''7'')
   \<and> re_search True pattern4 ''Show - 7'' \<noteq> None
   \<and> (\<exists>d. map_option (\<lambda>m. (match_group m 2, match_group m 3)) (re_search True pattern4 ''Show - 7'')
            = Some (Inr (Some d), Inl IndexError) \<and> d \<noteq> [])"
proof -
  have e: "extract_anime_info ''Show - 7.mkv'' = Inr (''Show'', Some ''7'')"
    by code_simp
  have s: "re_search True pattern4 ''Show - 7'' \<noteq> None"
    by code_simp
  then obtain m where m: "re_search True pattern4 ''Show - 7'' = Some m"
    by blast
  have "pattern4 \<in> set [pattern1, pattern3, pattern4, pattern5]" by simp
  with extract_anime_info_total [of "''Show - 7.mkv''" "''Show - 7''"] m
  have "match_group m 3 = Inl IndexError \<and> (\<exists>d. match_group m 2 = Inr (Some d) \<and> d \<noteq> [])"
    by blast
  with m e s show ?thesis by auto
qed

text \<open>
  C3. The format of the generated name. An episode that is present and not empty is
  padded on the left with \<^verbatim>\<open>0\<close> to two characters, and the result is the name, then
  \<^verbatim>\<open> - Episode \<close>, the padded episode and the extension, with the reserved characters
  deleted; without an episode the result is the name and the extension, with the
  reserved characters deleted. This holds for every episode that is a string of
  digits, and more generally for every episode other than the strings \<^verbatim>\<open>+\<close> and \<^verbatim>\<open>-\<close>,
  where \<^verbatim>\<open>zfill\<close> puts the zero after the sign. The three examples of the spec are part
  of the statement.
\<close>

theorem generate_new_filename_format:
  "(e \<noteq> [] \<and> list_all isdecimal e \<longrightarrow>
      generate_new_filename anime_name (Some e) original_filename
      = filter (\<lambda>c. c \<notin> set reserved)
          (anime_name @ '' - Episode '' @ (replicate (2 - length e) CHR ''0'' @ e)
             @ snd (splitext original_filename)))
   \<and> (e \<noteq> [] \<and> e \<noteq> ''+'' \<and> e \<noteq> ''-'' \<longrightarrow>
      generate_new_filename anime_name (Some e) original_filename
      = filter (\<lambda>c. c \<notin> set reserved)
          (anime_name @ '' - Episode '' @ (replicate (2 - length e) CHR ''0'' @ e)
             @ snd (splitext original_filename)))
   \<and> generate_new_filename anime_name None original_filename
     = filter (\<lambda>c. c \<notin> set reserved) (anime_name @ snd (splitext original_filename))
   \<and> generate_new_filename ''Show'' (Some ''5'') ''x.mkv'' = ''Show - Episode 05.mkv''
   \<and> generate_new_filename ''Show'' (Some ''12'') ''x.mkv'' = ''Show - Episode 12.mkv''
   \<and> generate_new_filename ''Show'' None ''x.mkv'' = ''Show.mkv''"
proof -
  have padded: "generate_new_filename anime_name (Some e) original_filename
      = filter (\<lambda>c. c \<notin> set reserved)
          (anime_name @ '' - Episode '' @ (replicate (2 - length e) CHR ''0'' @ e)
             @ snd (splitext original_filename))"
    if "e \<noteq> []" "e \<noteq> ''+''" "e \<noteq> ''-''"
    using that zfill_pad [of e]
    by (simp add: generate_new_filename_def remove_invalid_filter)
  have digits: "e \<noteq> ''+'' \<and> e \<noteq> ''-''" if "e \<noteq> []" "list_all isdecimal e"
    using that by (rule digits_no_sign)
  have absent: "generate_new_filename anime_name None original_filename
     = filter (\<lambda>c. c \<notin> set reserved) (anime_name @ snd (splitext original_filename))"
    by (simp add: generate_new_filename_def remove_invalid_filter)
  have ex1: "generate_new_filename ''Show'' (Some ''5'') ''x.mkv'' = ''Show - Episode 05.mkv''"
    by code_simp
  have ex2: "generate_new_filename ''Show'' (Some ''12'') ''x.mkv'' = ''Show - Episode 12.mkv''"
    by code_simp
  have ex3: "generate_new_filename ''Show'' None ''x.mkv'' = ''Show.mkv''"
    by code_simp
  from padded digits absent ex1 ex2 ex3 show ?thesis by blast
qed

theorem generate_new_filename_format_witness:
  "''7'' \<noteq> [] \<and> list_all isdecimal ''7''
   \<and> generate_new_filename ''A: B'' (Some ''7'') ''old.name.mp4'' = ''A B - Episode 07.mp4''
   \<and> ''123'' \<noteq> [] \<and> ''123'' \<noteq> ''+'' \<and> ''123'' \<noteq> ''-''
   \<and> generate_new_filename ''A'' (Some ''123'') ''b.mkv'' = ''A - Episode 123.mkv''"
proof -
  have h: "''7'' \<noteq> [] \<and> list_all isdecimal ''7''"
    by (simp add: isdecimal_def)
  have k: "''123'' \<noteq> [] \<and> ''123'' \<noteq> ''+'' \<and> ''123'' \<noteq> ''-''"
    by simp
  have ext: "snd (splitext ''old.name.mp4'') = ''.mp4''" "snd (splitext ''b.mkv'') = ''.mkv''"
    by code_simp+
  from h generate_new_filename_format [of "''7''" "''A: B''" "''old.name.mp4''"]
  have a: "generate_new_filename ''A: B'' (Some ''7'') ''old.name.mp4''
        = filter (\<lambda>c. c \<notin> set reserved)
            (''A: B'' @ '' - Episode '' @ (replicate (2 - length ''7'') CHR ''0'' @ ''7'')
               @ snd (splitext ''old.name.mp4''))"
    by blast
  from k generate_new_filename_format [of "''123''" "''A''" "''b.mkv''"]
  have b: "generate_new_filename ''A'' (Some ''123'') ''b.mkv''
        = filter (\<lambda>c. c \<notin> set reserved)
            (''A'' @ '' - Episode '' @ (replicate (2 - length ''123'') CHR ''0'' @ ''123'')
               @ snd (splitext ''b.mkv''))"
    by blast
  from a b h k show ?thesis
    by (simp add: ext reserved_def)
qed

text \<open>
  C4. Removal of the reserved characters. The result of \<^verbatim>\<open>generate_new_filename\<close>
  contains none of the characters \<^verbatim>\<open>< > : " / \ | ? *\<close>; the removal step (line 123)
  deletes exactly these characters and inserts nothing; it leaves a string without
  them unchanged, and applying it twice is the same as applying it once.
\<close>

theorem reserved_characters_removed:
  "(\<forall>c \<in> set (generate_new_filename anime_name episode original_filename). c \<notin> set reserved)
   \<and> remove_invalid s = filter (\<lambda>c. c \<notin> set reserved) s
   \<and> (set s \<inter> set reserved = {} \<longrightarrow> remove_invalid s = s)
   \<and> remove_invalid (remove_invalid s) = remove_invalid s"
proof -
  have out: "\<forall>c \<in> set (generate_new_filename anime_name episode original_filename).
               c \<notin> set reserved"
    by (simp add: generate_new_filename_def remove_invalid_filter Let_def)
  have clean: "remove_invalid s = s" if "set s \<inter> set reserved = {}"
  proof -
    from that have "\<forall>c \<in> set s. c \<notin> set reserved" by blast
    then show ?thesis by (simp add: remove_invalid_filter)
  qed
  have twice: "remove_invalid (remove_invalid s) = remove_invalid s"
    by (simp add: remove_invalid_filter)
  from out clean twice remove_invalid_filter [of s] show ?thesis by blast
qed

theorem reserved_characters_removed_witness:
  "generate_new_filename ''Show: Part?'' (Some ''5'') ''x.mkv'' = ''Show Part - Episode 05.mkv''
   \<and> list_all (\<lambda>c. c \<notin> set reserved) ''Show Part - Episode 05.mkv''
   \<and> set ''Show Part'' \<inter> set reserved = {}
   \<and> remove_invalid ''Show Part'' = ''Show Part''"
proof -
  have g: "generate_new_filename ''Show: Part?'' (Some ''5'') ''x.mkv''
           = ''Show Part - Episode 05.mkv''"
    by code_simp
  have h: "set ''Show Part'' \<inter> set reserved = {}"
    by (simp add: reserved_def)
  from reserved_characters_removed
         [of "''Show: Part?''" "Some ''5''" "''x.mkv''" "''Show Part''"] g h
  show ?thesis by (simp add: list_all_iff)
qed

text \<open>
  C5. The fallback. When none of the five patterns matches the stem, the result is the
  stem as it is, with no episode; nothing is collapsed, stripped or trimmed. For
  \<^verbatim>\<open>randomfile.mkv\<close> the result is \<^verbatim>\<open>randomfile\<close> with no episode.
\<close>

theorem fallback_is_stem:
  "((\<forall>r \<in> set patterns. re_search True r (fst (splitext filename)) = None) \<longrightarrow>
      extract_anime_info filename = Inr (fst (splitext filename), None))
   \<and> extract_anime_info ''randomfile.mkv'' = Inr (''randomfile'', None)
   \<and> extract_anime_info '' 720p_x .mkv'' = Inr ('' 720p_x '', None)"
proof -
  have a: "extract_anime_info filename = Inr (fst (splitext filename), None)"
    if "\<forall>r \<in> set patterns. re_search True r (fst (splitext filename)) = None"
    using that by (simp add: extract_anime_info_def patterns_def)
  have b: "extract_anime_info ''randomfile.mkv'' = Inr (''randomfile'', None)"
    by code_simp
  have c: "extract_anime_info '' 720p_x .mkv'' = Inr ('' 720p_x '', None)"
    by code_simp
  from a b c show ?thesis by blast
qed

theorem fallback_is_stem_witness:
  "list_all (\<lambda>r. re_search True r (fst (splitext ''my_file.mkv'')) = None) patterns
   \<and> extract_anime_info ''my_file.mkv'' = Inr (''my_file'', None)"
proof -
  have st: "fst (splitext ''my_file.mkv'') = ''my_file''"
    by code_simp
  have h: "\<forall>r \<in> set patterns. re_search True r (fst (splitext ''my_file.mkv'')) = None"
    by code_simp
  from fallback_is_stem [of "''my_file.mkv''"] h
  have "extract_anime_info ''my_file.mkv'' = Inr (fst (splitext ''my_file.mkv''), None)"
    by blast
  with h st show ?thesis by (simp add: list_all_iff)
qed

text \<open>
  C6. The claim as stated fails: the name can be empty. The pattern of
  \<^verbatim>\<open>720p - 01.mkv\<close> captures \<^verbatim>\<open>720p\<close>, which the removal of quality tags deletes; the
  pattern of \<^verbatim>\<open>[a] - 05.mkv\<close> captures a single space, which is trimmed away; and the
  empty file name has the empty stem, which no pattern matches.
\<close>

theorem series_name_counterexample:
  "extract_anime_info ''720p - 01.mkv'' = Inr ([], Some ''01'')
   \<and> extract_anime_info ''[a] - 05.mkv'' = Inr ([], Some ''05'')
   \<and> extract_anime_info [] = Inr ([], None)"
  by code_simp

text \<open>
  C6, amended. When no pattern matches, the name is the stem, which is empty exactly
  when the file name is empty. When a pattern matches, the text \<open>raw\<close> captured as
  group 1 by the first pattern that matches is not empty, and the name is what the
  clean-up makes of it, \<open>remove_quality (clean_name (strip raw))\<close>. This name is empty
  exactly when every word of the cleaned name \<open>clean_name (strip raw)\<close> is a quality
  tag (ignoring case), which includes the cleaned name without any word; it is not
  empty as soon as the cleaned name has a word that is not a quality tag.
\<close>

theorem series_name_amended:
  "(case find (\<lambda>r. re_search True r (fst (splitext filename)) \<noteq> None) patterns of
      None \<Rightarrow>
        extract_anime_info filename = Inr (fst (splitext filename), None)
        \<and> (fst (splitext filename) = [] \<longleftrightarrow> filename = [])
    | Some r \<Rightarrow>
        \<exists>m raw e. re_search True r (fst (splitext filename)) = Some m
          \<and> match_group m 1 = Inr (Some raw) \<and> raw \<noteq> []
          \<and> (case match_group m 2 of
                Inl err \<Rightarrow> Inl err
              | Inr g2 \<Rightarrow> if truthy g2 then Inr g2 else match_group m 3) = Inr e
          \<and> extract_anime_info filename = Inr (remove_quality (clean_name (strip raw)), e)
          \<and> (remove_quality (clean_name (strip raw)) = []
               \<longleftrightarrow> list_all is_tag (split_words (clean_name (strip raw)))))"
proof (cases "find (\<lambda>r. re_search True r (fst (splitext filename)) \<noteq> None) patterns")
  case None
  with try_patterns_first [OF patterns_well_grouped, of "fst (splitext filename)"]
  have "extract_anime_info filename = Inr (fst (splitext filename), None)"
    by (simp add: extract_anime_info_def)
  with None splitext_stem_empty_iff [of filename] show ?thesis by simp
next
  case (Some r)
  with try_patterns_first [OF patterns_well_grouped, of "fst (splitext filename)"]
  obtain m raw e where
    "re_search True r (fst (splitext filename)) = Some m"
    "match_group m 1 = Inr (Some raw)" "raw \<noteq> []"
    "(case match_group m 2 of Inl err \<Rightarrow> Inl err
      | Inr g2 \<Rightarrow> if truthy g2 then Inr g2 else match_group m 3) = Inr e"
    "extract_anime_info filename = Inr (remove_quality (clean_name (strip raw)), e)"
    by (auto simp: extract_anime_info_def)
  with remove_quality_empty_iff [of "clean_name (strip raw)"] Some show ?thesis
    by auto
qed

theorem series_name_amended_witness:
  "find (\<lambda>r. re_search True r (fst (splitext ''Show - 7.mkv'')) \<noteq> None) patterns = Some pattern4
   \<and> (\<exists>m raw e. re_search True pattern4 (fst (splitext ''Show - 7.mkv'')) = Some m
          \<and> match_group m 1 = Inr (Some raw) \<and> raw \<noteq> []
          \<and> extract_anime_info ''Show - 7.mkv'' = Inr (remove_quality (clean_name (strip raw)), e)
          \<and> (remove_quality (clean_name (strip raw)) = []
               \<longleftrightarrow> list_all is_tag (split_words (clean_name (strip raw)))))
   \<and> extract_anime_info ''Show - 7.mkv'' = Inr (''Show'', Some ''7'')
   \<and> split_words ''Show'' = [''Show''] \<and> \<not> is_tag ''Show''
   \<and> find (\<lambda>r. re_search True r (fst (splitext ''my_file.mkv'')) \<noteq> None) patterns = None
   \<and> extract_anime_info ''my_file.mkv'' = Inr (''my_file'', None)"
proof -
  have f: "find (\<lambda>r. re_search True r (fst (splitext ''Show - 7.mkv'')) \<noteq> None) patterns
           = Some pattern4"
    by code_simp
  have n: "find (\<lambda>r. re_search True r (fst (splitext ''my_file.mkv'')) \<noteq> None) patterns = None"
    by code_simp
  have st: "fst (splitext ''my_file.mkv'') = ''my_file''"
    by code_simp
  have e: "extract_anime_info ''Show - 7.mkv'' = Inr (''Show'', Some ''7'')"
    by code_simp
  have w: "split_words ''Show'' = [''Show''] \<and> \<not> is_tag ''Show''"
    by code_simp
  from series_name_amended [of "''Show - 7.mkv''"] f
  have a: "\<exists>m raw e. re_search True pattern4 (fst (splitext ''Show - 7.mkv'')) = Some m
          \<and> match_group m 1 = Inr (Some raw) \<and> raw \<noteq> []
          \<and> extract_anime_info ''Show - 7.mkv'' = Inr (remove_quality (clean_name (strip raw)), e)
          \<and> (remove_quality (clean_name (strip raw)) = []
               \<longleftrightarrow> list_all is_tag (split_words (clean_name (strip raw))))"
    by auto
  from series_name_amended [of "''my_file.mkv''"] n st
  have b: "extract_anime_info ''my_file.mkv'' = Inr (''my_file'', None)"
    by simp
  from f n e w a b show ?thesis by blast
qed

text \<open>
  C7. The claim as stated fails in two ways. The removal of a quality tag from the
  middle of a name leaves the white space on both sides of it: \<^verbatim>\<open>a 720p b - 01.mkv\<close>
  gives the name \<^verbatim>\<open>a  b\<close>, with two spaces. And when no pattern matches, the stem is
  returned as it is: \<^verbatim>\<open> x.mkv\<close> gives the name \<^verbatim>\<open> x\<close>, which begins with a space.
\<close>

theorem whitespace_counterexample:
  "extract_anime_info ''a 720p b - 01.mkv'' = Inr (''a  b'', Some ''01'')
   \<and> \<not> no_double_space ''a  b''
   \<and> extract_anime_info '' x.mkv'' = Inr ('' x'', None)
   \<and> \<not> trimmed '' x''"
  by code_simp

text \<open>
  C7, amended. When a pattern matches, the name is \<open>remove_quality (clean_name raw)\<close>
  for some text \<open>raw\<close>. A name cleaned by lines 99 and 100 is single-spaced: trimmed,
  with no two adjacent white space characters, and with no white space character other
  than the space. The result of lines 103 and 104 is trimmed, and it is the cleaned
  name itself, hence single-spaced, when the substitution of the quality tags changes
  nothing.
\<close>

theorem whitespace_amended:
  "single_spaced (clean_name s)
   \<and> trimmed (remove_quality s)
   \<and> (re_sub True quality [] (clean_name s) = clean_name s \<longrightarrow>
        remove_quality (clean_name s) = clean_name s)
   \<and> (list_ex (\<lambda>r. re_search True r (fst (splitext filename)) \<noteq> None) patterns \<longrightarrow>
        (\<exists>raw e. extract_anime_info filename
                    = Inr (remove_quality (clean_name (strip raw)), e)))"
proof -
  have a: "\<exists>raw e. extract_anime_info filename = Inr (remove_quality (clean_name (strip raw)), e)"
    if "list_ex (\<lambda>r. re_search True r (fst (splitext filename)) \<noteq> None) patterns"
  proof -
    from that
    have "\<not> list_all (\<lambda>r. re_search True r (fst (splitext filename)) = None) patterns"
      by (simp add: list_all_iff list_ex_iff)
    with extract_anime_info_result [of filename] show ?thesis by blast
  qed
  from a clean_name_single_spaced [of s] remove_quality_trimmed [of s]
    remove_quality_nothing [of s]
  show ?thesis by blast
qed

theorem whitespace_amended_witness:
  "list_ex (\<lambda>r. re_search True r (fst (splitext ''My_Show - 01.mkv'')) \<noteq> None) patterns
   \<and> re_sub True quality [] (clean_name ''My_Show'') = clean_name ''My_Show''
   \<and> remove_quality (clean_name ''My_Show'') = ''My Show''
   \<and> single_spaced ''My Show''
   \<and> (\<exists>raw e. extract_anime_info ''My_Show - 01.mkv''
                 = Inr (remove_quality (clean_name (strip raw)), e))"
proof -
  have h: "list_ex (\<lambda>r. re_search True r (fst (splitext ''My_Show - 01.mkv'')) \<noteq> None) patterns"
    by code_simp
  have q: "re_sub True quality [] (clean_name ''My_Show'') = clean_name ''My_Show''"
    by code_simp
  have c: "clean_name ''My_Show'' = ''My Show''"
    by code_simp
  from whitespace_amended [of "''My_Show''" "''My_Show - 01.mkv''"] h q
  have "single_spaced (clean_name ''My_Show'')
        \<and> remove_quality (clean_name ''My_Show'') = clean_name ''My_Show''
        \<and> (\<exists>raw e. extract_anime_info ''My_Show - 01.mkv''
                      = Inr (remove_quality (clean_name (strip raw)), e))"
    by blast
  with h q c show ?thesis by simp
qed

text \<open>
  C8. The claim as stated fails for a file name that begins with \<^verbatim>\<open>.\<close>, and for one
  whose final \<^verbatim>\<open>.\<close> is before a \<^verbatim>\<open>/\<close>. For \<^verbatim>\<open>.mkv\<close> the claim's stem is empty and its
  extension is \<^verbatim>\<open>.mkv\<close>; \<^verbatim>\<open>os.path.splitext\<close> gives the stem \<^verbatim>\<open>.mkv\<close> and no extension,
  so the name inferred is \<^verbatim>\<open>.mkv\<close> and the name built has no extension.
\<close>

theorem splitext_counterexample:
  "final_dot_split ''.mkv'' = ([], ''.mkv'')
   \<and> splitext ''.mkv'' = (''.mkv'', [])
   \<and> extract_anime_info ''.mkv'' = Inr (''.mkv'', None)
   \<and> generate_new_filename ''Show'' None ''.mkv'' = ''Show''
   \<and> final_dot_split ''a.b/c'' = (''a'', ''.b/c'')
   \<and> splitext ''a.b/c'' = (''a.b/c'', [])"
  by code_simp

text \<open>
  C8, amended. For every file name the stem followed by the extension is the file
  name. The split is at the final \<^verbatim>\<open>.\<close> exactly when that \<^verbatim>\<open>.\<close> is in the last component
  of the path and has a character other than \<^verbatim>\<open>.\<close> before it in that component;
  otherwise the stem is the whole file name and the extension is empty. So the split
  is at the final \<^verbatim>\<open>.\<close> for every file name without \<^verbatim>\<open>/\<close> that does not begin with
  \<^verbatim>\<open>.\<close>, also when it ends with \<^verbatim>\<open>.\<close>. \<^verbatim>\<open>extract_anime_info\<close> matches the patterns against
  this stem and \<^verbatim>\<open>generate_new_filename\<close> appends this extension.
\<close>

theorem splitext_amended:
  "splitext filename
     = (if has_extension filename then final_dot_split filename else (filename, []))
   \<and> fst (splitext filename) @ snd (splitext filename) = filename
   \<and> (CHR ''/'' \<notin> set filename \<and> (filename = [] \<or> hd filename \<noteq> CHR ''.'') \<longrightarrow>
        splitext filename = final_dot_split filename
        \<and> extract_anime_info filename
          = try_patterns patterns (fst (final_dot_split filename))
        \<and> generate_new_filename anime_name None filename
          = remove_invalid (anime_name @ snd (final_dot_split filename)))
   \<and> splitext ''a.'' = (''a'', ''.'')"
proof -
  have plain: "splitext filename = final_dot_split filename"
    if "CHR ''/'' \<notin> set filename" "filename = [] \<or> hd filename \<noteq> CHR ''.''"
    using has_extension_plain [OF that] splitext_exact [of filename]
    by (simp add: final_dot_split_def)
  have uses: "extract_anime_info filename = try_patterns patterns (fst (final_dot_split filename))
              \<and> generate_new_filename anime_name None filename
                = remove_invalid (anime_name @ snd (final_dot_split filename))"
    if "splitext filename = final_dot_split filename"
    using that by (simp add: extract_anime_info_def generate_new_filename_def)
  have ex: "splitext ''a.'' = (''a'', ''.'')"
    by code_simp
  from plain uses ex splitext_exact [of filename] splitext_append [of filename]
  show ?thesis by blast
qed

theorem splitext_amended_witness:
  "CHR ''/'' \<notin> set ''Show.S01E02.mkv''
   \<and> hd ''Show.S01E02.mkv'' \<noteq> CHR ''.''
   \<and> splitext ''Show.S01E02.mkv'' = (''Show.S01E02'', ''.mkv'')
   \<and> generate_new_filename ''Show'' None ''Show.S01E02.mkv'' = ''Show.mkv''"
proof -
  have h: "CHR ''/'' \<notin> set ''Show.S01E02.mkv''
           \<and> (''Show.S01E02.mkv'' = [] \<or> hd ''Show.S01E02.mkv'' \<noteq> CHR ''.'')"
    by simp
  have f: "final_dot_split ''Show.S01E02.mkv'' = (''Show.S01E02'', ''.mkv'')"
    by code_simp
  have r: "remove_invalid (''Show'' @ ''.mkv'') = ''Show.mkv''"
    by code_simp
  from splitext_amended [of "''Show.S01E02.mkv''" "''Show''"] h
  have "splitext ''Show.S01E02.mkv'' = final_dot_split ''Show.S01E02.mkv''
        \<and> generate_new_filename ''Show'' None ''Show.S01E02.mkv''
          = remove_invalid (''Show'' @ snd (final_dot_split ''Show.S01E02.mkv''))"
    by blast
  with f r show ?thesis by simp
qed

text \<open>
  C9. \<^verbatim>\<open>generate_new_filename\<close> is a function of its arguments, so equal arguments give
  equal results; and of the original file name only the extension matters: two
  original file names with the same extension give the same result for every name and
  episode.
\<close>

theorem generate_new_filename_extension_only:
  "(anime_name = anime_name' \<and> episode = episode' \<and> f = f' \<longrightarrow>
      generate_new_filename anime_name episode f = generate_new_filename anime_name' episode' f')
   \<and> (snd (splitext f1) = snd (splitext f2) \<longrightarrow>
      generate_new_filename anime_name episode f1 = generate_new_filename anime_name episode f2)"
  by (simp add: generate_new_filename_def)

theorem generate_new_filename_extension_only_witness:
  "snd (splitext ''[SubGroup] Great Anime - 05 [720p].mkv'') = snd (splitext ''x.y.mkv'')
   \<and> generate_new_filename ''Show'' (Some ''5'') ''[SubGroup] Great Anime - 05 [720p].mkv''
     = generate_new_filename ''Show'' (Some ''5'') ''x.y.mkv''"
proof -
  have h: "snd (splitext ''[SubGroup] Great Anime - 05 [720p].mkv'') = snd (splitext ''x.y.mkv'')"
    by code_simp
  from generate_new_filename_extension_only
         [of "''Show''" "''Show''" "Some ''5''" "Some ''5''" "''x.mkv''" "''x.mkv''"
             "''[SubGroup] Great Anime - 05 [720p].mkv''" "''x.y.mkv''"] h
  show ?thesis by blast
qed

text \<open>
  C10. An episode that is the empty string is treated as no episode: the result is the
  name and the extension with the reserved characters deleted, not a name with
  \<^verbatim>\<open>Episode 00\<close>.
\<close>

theorem empty_episode_is_absent:
  "generate_new_filename anime_name (Some []) original_filename
     = generate_new_filename anime_name None original_filename
   \<and> generate_new_filename anime_name (Some []) original_filename
     = filter (\<lambda>c. c \<notin> set reserved) (anime_name @ snd (splitext original_filename))
   \<and> generate_new_filename ''Show'' (Some []) ''x.mkv'' = ''Show.mkv''"
proof -
  have a: "generate_new_filename anime_name (Some []) original_filename
           = generate_new_filename anime_name None original_filename"
    by (simp add: generate_new_filename_def)
  have b: "generate_new_filename anime_name (Some []) original_filename
           = filter (\<lambda>c. c \<notin> set reserved) (anime_name @ snd (splitext original_filename))"
    by (simp add: generate_new_filename_def remove_invalid_filter)
  have c: "generate_new_filename ''Show'' (Some []) ''x.mkv'' = ''Show.mkv''"
    by code_simp
  from a b c show ?thesis by blast
qed

end
